theory Spec2Isabelle
  imports Main "HOL-Library.Sublist" "HOL-Library.AList"
begin

section \<open>JavaScript strings\<close>

text \<open>
  A JavaScript string is a sequence of UTF-16 code units. A code unit is modelled by its
  number, so that the en dash (U+2013) of the canonical cost form is one unit, as it is for
  the source's regular expressions. \<open>js\<close> turns an ASCII literal into such a string.
\<close>

type_synonym jschar = nat
type_synonym jsstring = "jschar list"

definition js :: "string \<Rightarrow> jsstring" where
  "js s = map of_char s"

text \<open>The class \<^verbatim>\<open>\s\<close> of JavaScript regular expressions, which is also what \<^verbatim>\<open>trim\<close> strips.\<close>

definition isSpace :: "jschar \<Rightarrow> bool" where
  "isSpace c \<longleftrightarrow>
     c = 9 \<or> c = 10 \<or> c = 11 \<or> c = 12 \<or> c = 13 \<or> c = 32 \<or> c = 160 \<or> c = 5760 \<or>
     (8192 \<le> c \<and> c \<le> 8202) \<or> c = 8232 \<or> c = 8233 \<or> c = 8239 \<or> c = 8287 \<or>
     c = 12288 \<or> c = 65279"

definition trim :: "jsstring \<Rightarrow> jsstring" where
  "trim s = rev (dropWhile isSpace (rev (dropWhile isSpace s)))"

text \<open>
  \<^verbatim>\<open>toLowerCase\<close>, for the code units below 256 (Basic Latin and Latin-1); the units above
  are left as they are, the Unicode case tables beyond Latin-1 are not modelled.
\<close>

definition lowerUnit :: "jschar \<Rightarrow> jschar" where
  "lowerUnit c = (if (65 \<le> c \<and> c \<le> 90) \<or> (192 \<le> c \<and> c \<le> 222 \<and> c \<noteq> 215) then c + 32 else c)"

definition toLowerCase :: "jsstring \<Rightarrow> jsstring" where
  "toLowerCase s = map lowerUnit s"

text \<open>\<^verbatim>\<open>replace(/\s+/g, ' ')\<close>: every maximal run of white space becomes one space.\<close>

fun collapseSpaces :: "jsstring \<Rightarrow> jsstring" where
  "collapseSpaces [] = []"
| "collapseSpaces [c] = (if isSpace c then [32] else [c])"
| "collapseSpaces (c # d # cs) =
     (if isSpace c then (if isSpace d then collapseSpaces (d # cs) else 32 # collapseSpaces (d # cs))
      else c # collapseSpaces (d # cs))"

text \<open>A natural number as a string: in a template string, and as the name of an array index.\<close>

fun showNat :: "nat \<Rightarrow> jsstring" where
  "showNat n = (if n < 10 then [48 + n] else showNat (n div 10) @ [48 + n mod 10])"

declare showNat.simps [simp del]

section \<open>Title keys (Chat.tsx and chat.js, \<^verbatim>\<open>normalizeTitleKey\<close>)\<close>

definition genericVerbs :: "jsstring list" where
  "genericVerbs = map js [''visit'', ''explore'', ''walk'', ''tour'', ''see'', ''go to'', ''discover'']"

text \<open>
  \<^verbatim>\<open>replace(/^[\s]*(visit|explore|walk|tour|see|go to|discover)\s+/g, '')\<close>: the pattern is
  anchored at the start, so at most one match is replaced: leading white space, the first verb
  of the list that is followed by white space, and all the white space after it.
\<close>

definition stripGenericVerb :: "jsstring \<Rightarrow> jsstring" where
  "stripGenericVerb t =
     (let r = dropWhile isSpace t in
      case find (\<lambda>v. prefix v r \<and> (case drop (length v) r of [] \<Rightarrow> False | c # _ \<Rightarrow> isSpace c))
             genericVerbs of
        None \<Rightarrow> t
      | Some v \<Rightarrow> dropWhile isSpace (drop (length v) r))"

definition replaceAmpersand :: "jsstring \<Rightarrow> jsstring" where
  "replaceAmpersand s = concat (map (\<lambda>c. if c = 38 then js ''and'' else [c]) s)"

definition isKeyChar :: "jschar \<Rightarrow> bool" where
  "isKeyChar c \<longleftrightarrow> (97 \<le> c \<and> c \<le> 122) \<or> (48 \<le> c \<and> c \<le> 57) \<or> isSpace c"

definition normalizeTitleKey :: "jsstring \<Rightarrow> jsstring" where
  "normalizeTitleKey t =
     trim (collapseSpaces (filter isKeyChar (replaceAmpersand (stripGenericVerb (toLowerCase t)))))"

section \<open>Parsed JSON values\<close>

text \<open>
  What \<^verbatim>\<open>JSON.parse\<close> returns. An object is the list of its properties, read with
  \<open>map_of\<close>. Numbers are integers: no modelled step reads a number other than an array index.
\<close>

datatype json =
    JNull
  | JBool bool
  | JNum int
  | JStr jsstring
  | JArr "json list"
  | JObj "(jsstring \<times> json) list"

datatype jstype = TUndefined | TObject | TBoolean | TNumber | TString

fun typeof :: "json option \<Rightarrow> jstype" where
  "typeof None = TUndefined"
| "typeof (Some JNull) = TObject"
| "typeof (Some (JBool _)) = TBoolean"
| "typeof (Some (JNum _)) = TNumber"
| "typeof (Some (JStr _)) = TString"
| "typeof (Some (JArr _)) = TObject"
| "typeof (Some (JObj _)) = TObject"

fun truthy :: "json \<Rightarrow> bool" where
  "truthy JNull = False"
| "truthy (JBool b) = b"
| "truthy (JNum n) = (n \<noteq> 0)"
| "truthy (JStr s) = (s \<noteq> [])"
| "truthy (JArr _) = True"
| "truthy (JObj _) = True"

text \<open>
  Reading a named property of a value that is not \<^verbatim>\<open>null\<close>: \<open>None\<close> is \<^verbatim>\<open>undefined\<close>. Only the
  item and payload keys are ever read, which arrays, strings, numbers and booleans do not have.
\<close>

fun getProp :: "json \<Rightarrow> jsstring \<Rightarrow> json option" where
  "getProp (JObj kvs) k = map_of kvs k"
| "getProp _ k = None"

datatype error = TypeError

text \<open>
  \<^verbatim>\<open>xs[i]\<close> for a number \<open>i\<close> that is an integer: \<^verbatim>\<open>undefined\<close> outside the array.
\<close>

definition nthOpt :: "'a list \<Rightarrow> int \<Rightarrow> 'a option" where
  "nthOpt xs i = (if 0 \<le> i \<and> i < int (length xs) then Some (xs ! nat i) else None)"

section \<open>Plan items and within-day dedup (Chat.tsx)\<close>

type_synonym planDay = "json list"
type_synonym planDays = "planDay list"

definition isStrictItem :: "json \<Rightarrow> bool" where
  "isStrictItem x \<longleftrightarrow>
     truthy x \<and>
     typeof (Some x) = TObject \<and>
     typeof (getProp x (js ''title'')) = TString \<and>
     typeof (getProp x (js ''short_description'')) = TString \<and>
     (typeof (getProp x (js ''estimated_cost'')) = TUndefined \<or>
      typeof (getProp x (js ''estimated_cost'')) = TString)"

text \<open>\<^verbatim>\<open>it.title\<close>, read where the title is known to be a string.\<close>

definition title :: "json \<Rightarrow> jsstring" where
  "title x = (case getProp x (js ''title'') of Some (JStr s) \<Rightarrow> s | _ \<Rightarrow> [])"

text \<open>The loop of \<^verbatim>\<open>dedupeWithinDay\<close>, with its two locals \<^verbatim>\<open>seen\<close> and \<^verbatim>\<open>out\<close>.\<close>

fun dedupeLoop :: "json list \<Rightarrow> jsstring set \<Rightarrow> json list \<Rightarrow> json list" where
  "dedupeLoop [] seen out = out"
| "dedupeLoop (it # rest) seen out =
     (if \<not> isStrictItem it then dedupeLoop rest seen out
      else let key = normalizeTitleKey (title it) in
        if key \<in> seen then dedupeLoop rest seen out
        else if length (out @ [it]) \<ge> 5 then out @ [it]
        else dedupeLoop rest (insert key seen) (out @ [it]))"

definition dedupeWithinDay :: "planDay \<Rightarrow> planDay" where
  "dedupeWithinDay day = dedupeLoop day {} []"

definition sanitizePlanDays :: "planDays \<Rightarrow> planDays" where
  "sanitizePlanDays days = map dedupeWithinDay days"

section \<open>Progressive merge (Chat.tsx, \<^verbatim>\<open>mergePlanProgress\<close>)\<close>

text \<open>The inner loop over \<^verbatim>\<open>incoming[d]\<close>; it appends to \<^verbatim>\<open>existing\<close> and stops at five.\<close>

fun mergeItems :: "json list \<Rightarrow> jsstring set \<Rightarrow> json list \<Rightarrow> json list" where
  "mergeItems [] seen existing = existing"
| "mergeItems (it # rest) seen existing =
     (if \<not> isStrictItem it then mergeItems rest seen existing
      else if length existing \<ge> 5 then existing
      else let key = normalizeTitleKey (title it) in
        if key \<notin> seen then mergeItems rest (insert key seen) (existing @ [it])
        else mergeItems rest seen existing)"

text \<open>
  One round of the outer loop. Building \<^verbatim>\<open>seen\<close> calls \<^verbatim>\<open>toLowerCase\<close> on the title of every
  existing entry, which throws a TypeError when a title is not a string.
\<close>

definition mergeDay :: "planDay \<Rightarrow> planDay \<Rightarrow> error + planDay" where
  "mergeDay existing incomingDay =
     (if \<exists>it \<in> set existing. it = JNull \<or> typeof (getProp it (js ''title'')) \<noteq> TString
      then Inl TypeError
      else Inr (dedupeWithinDay
             (mergeItems incomingDay (set (map (\<lambda>it. normalizeTitleKey (title it)) existing)) existing)))"

text \<open>
  The outer loop runs \<open>d\<close> over the days of \<^verbatim>\<open>incoming\<close> in order and creates \<^verbatim>\<open>out[d]\<close> when the
  copy of \<^verbatim>\<open>prev\<close> has no such day: day \<open>d\<close> of the one list meets day \<open>d\<close> of the other, and the
  days of \<^verbatim>\<open>prev\<close> beyond \<^verbatim>\<open>incoming.length\<close> are kept as they are.
\<close>

fun mergePlanProgress :: "planDays \<Rightarrow> planDays \<Rightarrow> error + planDays" where
  "mergePlanProgress out [] = Inr out"
| "mergePlanProgress [] (inc # incs) =
     (case mergeDay [] inc of
        Inl e \<Rightarrow> Inl e
      | Inr d \<Rightarrow> (case mergePlanProgress [] incs of Inl e \<Rightarrow> Inl e | Inr ds \<Rightarrow> Inr (d # ds)))"
| "mergePlanProgress (existing # rest) (inc # incs) =
     (case mergeDay existing inc of
        Inl e \<Rightarrow> Inl e
      | Inr d \<Rightarrow> (case mergePlanProgress rest incs of Inl e \<Rightarrow> Inl e | Inr ds \<Rightarrow> Inr (d # ds)))"

text \<open>The invariant of a day: strict items, pairwise distinct title keys, at most five.\<close>

definition dayOk :: "planDay \<Rightarrow> bool" where
  "dayOk day \<longleftrightarrow>
     list_all isStrictItem day \<and>
     distinct (map (\<lambda>it. normalizeTitleKey (title it)) day) \<and>
     length day \<le> 5"

definition planOk :: "planDays \<Rightarrow> bool" where
  "planOk days \<longleftrightarrow> list_all dayOk days"

text \<open>The part of the invariant that leaves the length open: strict items, pairwise distinct title keys.\<close>

definition dayDistinct :: "planDay \<Rightarrow> bool" where
  "dayDistinct day \<longleftrightarrow>
     list_all isStrictItem day \<and>
     distinct (map (\<lambda>it. normalizeTitleKey (title it)) day)"

section \<open>Partial plan extractor (Chat.tsx, \<^verbatim>\<open>extractCompletedActivities\<close>)\<close>

text \<open>The key \<^verbatim>\<open>"planDays"\<close> with its quotes, ten code units.\<close>

definition planDaysKey :: jsstring where
  "planDaysKey = 34 # js ''planDays'' @ [34]"

text \<open>
  The regular expression \<^verbatim>\<open>/"planDays"\s*:\s*\[/\<close> matched at the head of \<open>s\<close>: the length of
  the match. Neither the colon nor the bracket is white space, so the pattern matches in one
  way only.
\<close>

definition matchPlanDaysHere :: "jsstring \<Rightarrow> nat option" where
  "matchPlanDaysHere s =
     (if prefix planDaysKey s
      then (case dropWhile isSpace (drop 10 s) of
              [] \<Rightarrow> None
            | c # r1 \<Rightarrow>
                if c = 58
                then (case dropWhile isSpace r1 of
                        [] \<Rightarrow> None
                      | d # r2 \<Rightarrow> if d = 91 then Some (length s - length r2) else None)
                else None)
      else None)"

text \<open>\<^verbatim>\<open>match.index + match[0].length\<close> for the first match, \<open>None\<close> when \<^verbatim>\<open>exec\<close> returns null.\<close>

fun findPlanDays :: "jsstring \<Rightarrow> nat option" where
  "findPlanDays [] = None"
| "findPlanDays (c # cs) =
     (case matchPlanDaysHere (c # cs) of
        Some n \<Rightarrow> Some n
      | None \<Rightarrow> map_option Suc (findPlanDays cs))"

text \<open>The locals of the scan; \<open>pos\<close> is \<^verbatim>\<open>i\<close>.\<close>

record scanState =
  pos :: nat
  inString :: bool
  escape :: bool
  depthSquare :: int
  depthCurly :: int
  currentDay :: "json list option"
  days :: "json list list"
  objStart :: int

text \<open>\<^verbatim>\<open>jsonText.slice(a, b)\<close> for \<open>0 \<le> a\<close>.\<close>

definition slice :: "jsstring \<Rightarrow> nat \<Rightarrow> nat \<Rightarrow> jsstring" where
  "slice s a b = take (b - a) (drop a s)"

text \<open>
  The body of the \<^verbatim>\<open>while\<close> loop on the code unit at \<open>pos\<close>, without the \<^verbatim>\<open>i++\<close> that ends every
  one of its branches. \<open>parse\<close> is \<^verbatim>\<open>JSON.parse\<close>, \<open>None\<close> when it throws.
\<close>

definition scanStep :: "(jsstring \<Rightarrow> json option) \<Rightarrow> jsstring \<Rightarrow> scanState \<Rightarrow> scanState" where
  "scanStep parse jsonText st =
     (let ch = jsonText ! pos st in
      if inString st then
        (if escape st then st\<lparr>escape := False\<rparr>
         else if ch = 92 then st\<lparr>escape := True\<rparr>
         else if ch = 34 then st\<lparr>inString := False\<rparr>
         else st)
      else if ch = 34 then st\<lparr>inString := True\<rparr>
      else if ch = 91 then
        (if depthSquare st + 1 = 2
         then st\<lparr>depthSquare := depthSquare st + 1, currentDay := Some []\<rparr>
         else st\<lparr>depthSquare := depthSquare st + 1\<rparr>)
      else if ch = 93 then
        (case currentDay st of
           Some cur \<Rightarrow>
             if depthSquare st = 2
             then (if length cur > 0
                   then st\<lparr>days := days st @ [cur], currentDay := None, depthSquare := depthSquare st - 1\<rparr>
                   else st\<lparr>currentDay := None, depthSquare := depthSquare st - 1\<rparr>)
             else st\<lparr>depthSquare := depthSquare st - 1\<rparr>
         | None \<Rightarrow> st\<lparr>depthSquare := depthSquare st - 1\<rparr>)
      else if ch = 123 then
        (if depthSquare st = 2 \<and> depthCurly st + 1 = 1
         then st\<lparr>depthCurly := depthCurly st + 1, objStart := int (pos st)\<rparr>
         else st\<lparr>depthCurly := depthCurly st + 1\<rparr>)
      else if ch = 125 then
        (case currentDay st of
           Some cur \<Rightarrow>
             if depthSquare st = 2 \<and> depthCurly st = 1 \<and> objStart st \<ge> 0
             then (case parse (slice jsonText (nat (objStart st)) (pos st + 1)) of
                     Some obj \<Rightarrow>
                       if isStrictItem obj
                       then st\<lparr>currentDay := Some (cur @ [obj]), objStart := - 1,
                               depthCurly := depthCurly st - 1\<rparr>
                       else st\<lparr>objStart := - 1, depthCurly := depthCurly st - 1\<rparr>
                   | None \<Rightarrow> st\<lparr>objStart := - 1, depthCurly := depthCurly st - 1\<rparr>)
             else st\<lparr>depthCurly := depthCurly st - 1\<rparr>
         | None \<Rightarrow> st\<lparr>depthCurly := depthCurly st - 1\<rparr>)
      else st)"

function scanLoop :: "(jsstring \<Rightarrow> json option) \<Rightarrow> jsstring \<Rightarrow> scanState \<Rightarrow> scanState" where
  "scanLoop parse jsonText st =
     (if pos st < length jsonText \<and> depthSquare st > 0
      then scanLoop parse jsonText ((scanStep parse jsonText st)\<lparr>pos := pos st + 1\<rparr>)
      else st)"
  by pat_completeness auto
termination
  by (relation "measure (\<lambda>(parse, jsonText, st). length jsonText - pos st)") auto

declare scanLoop.simps [simp del]

definition extractCompletedActivities :: "(jsstring \<Rightarrow> json option) \<Rightarrow> jsstring \<Rightarrow> planDays" where
  "extractCompletedActivities parse jsonText =
     (case findPlanDays jsonText of
        None \<Rightarrow> []
      | Some i \<Rightarrow>
          let st = scanLoop parse jsonText
                     \<lparr>pos = i, inString = False, escape = False, depthSquare = 1, depthCurly = 0,
                      currentDay = None, days = [], objStart = - 1\<rparr>
          in map dedupeWithinDay (filter (\<lambda>d. length d > 0) (days st)))"

section \<open>Stream handler (Chat.tsx, the callback given to \<^verbatim>\<open>parseSSEStream\<close>)\<close>

text \<open>
  The plan state of the component and the three refs of the handler that decide what happens to
  it: the buffer, the latch, and \<^verbatim>\<open>lastSeenReplyLenRef\<close>, against which the \<^verbatim>\<open>jsonFinal\<close> branch
  compares the length of the reply text before it slices it. The text of the chat bubble itself
  (\<^verbatim>\<open>replyRef\<close>, \<^verbatim>\<open>messages\<close>, \<^verbatim>\<open>errorText\<close>) is written by the handler and read by none of the
  statements below, and the state updaters given to \<^verbatim>\<open>setMessages\<close> run outside the handler; this
  text is left out.
\<close>

record chatState =
  planDays :: planDays
  jsonBuffer :: jsstring
  finalized :: bool
  lastSeenReplyLen :: nat

text \<open>
  The iteration \<^verbatim>\<open>for (const it of day)\<close> of \<^verbatim>\<open>dedupeWithinDay\<close> on a parsed value: an array gives
  its entries, a string its characters (none of them an item), anything else is not iterable.
\<close>

fun dayEntries :: "json \<Rightarrow> error + json list" where
  "dayEntries (JArr xs) = Inr xs"
| "dayEntries (JStr s) = Inr (map (\<lambda>c. JStr [c]) s)"
| "dayEntries _ = Inl TypeError"

fun daysEntries :: "json list \<Rightarrow> error + planDays" where
  "daysEntries [] = Inr []"
| "daysEntries (d # ds) =
     (case dayEntries d of
        Inl e \<Rightarrow> Inl e
      | Inr xs \<Rightarrow> (case daysEntries ds of Inl e \<Rightarrow> Inl e | Inr r \<Rightarrow> Inr (xs # r)))"

text \<open>
  \<^verbatim>\<open>sanitizePlanDays(parsed.planDays || [])\<close> for a parsed payload that is not \<^verbatim>\<open>null\<close>: a missing or
  falsy \<^verbatim>\<open>planDays\<close> gives the empty plan, an array is sanitized day by day, and any other value
  has no \<^verbatim>\<open>map\<close> method.
\<close>

definition finalPlanDays :: "json \<Rightarrow> error + planDays" where
  "finalPlanDays parsed =
     (case getProp parsed (js ''planDays'') of
        None \<Rightarrow> Inr (sanitizePlanDays [])
      | Some v \<Rightarrow>
          if \<not> truthy v then Inr (sanitizePlanDays [])
          else (case v of
                  JArr ds \<Rightarrow>
                    (case daysEntries ds of Inl e \<Rightarrow> Inl e | Inr r \<Rightarrow> Inr (sanitizePlanDays r))
                | _ \<Rightarrow> Inl TypeError))"

text \<open>
  Whether converting a parsed value to a string throws. An object is converted by its
  \<^verbatim>\<open>toString\<close>, and a parsed object with a property of that name has one that cannot be called,
  which is a TypeError; without it the inherited method answers. An array converts its entries,
  \<^verbatim>\<open>null\<close> apart, and joins them. Strings, numbers and booleans convert.
\<close>

fun toStringThrows :: "json \<Rightarrow> bool" where
  "toStringThrows (JObj kvs) = (map_of kvs (js ''toString'') \<noteq> None)"
| "toStringThrows (JArr xs) = (\<exists>x \<in> set xs. toStringThrows x)"
| "toStringThrows _ = False"

text \<open>
  \<^verbatim>\<open>finalText.length > prevLen\<close> where \<^verbatim>\<open>finalText\<close> is a parsed object, so that its \<^verbatim>\<open>length\<close> is
  any parsed value or \<^verbatim>\<open>undefined\<close>, and \<open>n\<close> is the number \<^verbatim>\<open>prevLen\<close>. The left side is converted
  to a number: \<^verbatim>\<open>undefined\<close> and an object give NaN, which is above nothing, \<^verbatim>\<open>null\<close> gives 0,
  \<^verbatim>\<open>true\<close> gives 1. A string, and an array through the string it converts to, is read as a
  numeric literal; this reading is not modelled, and the outcome of the comparison for a string
  or an array is the parameter \<open>exceeds\<close>. The conversion of an array or an object to a string
  comes first and may throw.
\<close>

definition lengthAbove :: "(json \<Rightarrow> nat \<Rightarrow> bool) \<Rightarrow> json option \<Rightarrow> nat \<Rightarrow> error + bool" where
  "lengthAbove exceeds len n =
     (case len of
        None \<Rightarrow> Inr False
      | Some JNull \<Rightarrow> Inr False
      | Some (JBool b) \<Rightarrow> Inr (b \<and> n = 0)
      | Some (JNum k) \<Rightarrow> Inr (int n < k)
      | Some (JStr t) \<Rightarrow> Inr (exceeds (JStr t) n)
      | Some (JArr xs) \<Rightarrow>
          if toStringThrows (JArr xs) then Inl TypeError else Inr (exceeds (JArr xs) n)
      | Some (JObj kvs) \<Rightarrow>
          if toStringThrows (JObj kvs) then Inl TypeError else Inr False)"

text \<open>
  The statements of the \<^verbatim>\<open>jsonFinal\<close> branch under \<^verbatim>\<open>// finalize text\<close>, for a parsed payload that is
  not \<^verbatim>\<open>null\<close>: the new value of \<^verbatim>\<open>lastSeenReplyLenRef\<close>, or the TypeError they throw.
  \<^verbatim>\<open>finalText\<close> is \<^verbatim>\<open>parsed.replyText\<close> when that is truthy and the empty string otherwise. A string
  longer than \<^verbatim>\<open>prevLen\<close> is sliced and its length recorded. A number or a boolean has no
  \<^verbatim>\<open>length\<close>. An array longer than \<^verbatim>\<open>prevLen\<close> is sliced too, and appending the slice to
  \<^verbatim>\<open>replyRef.current\<close> converts it to a string. An object whose \<^verbatim>\<open>length\<close> is above \<^verbatim>\<open>prevLen\<close> has
  no \<^verbatim>\<open>slice\<close> that can be called.
\<close>

definition finalizeText :: "(json \<Rightarrow> nat \<Rightarrow> bool) \<Rightarrow> json \<Rightarrow> nat \<Rightarrow> error + nat" where
  "finalizeText exceeds parsed prevLen =
     (case getProp parsed (js ''replyText'') of
        None \<Rightarrow> Inr prevLen
      | Some v \<Rightarrow>
          if \<not> truthy v then Inr prevLen
          else (case v of
                  JStr t \<Rightarrow> Inr (if prevLen < length t then length t else prevLen)
                | JArr xs \<Rightarrow>
                    if prevLen < length xs
                    then (if toStringThrows (JArr (drop prevLen xs)) then Inl TypeError
                          else Inr (length xs))
                    else Inr prevLen
                | JObj kvs \<Rightarrow>
                    (case lengthAbove exceeds (map_of kvs (js ''length'')) prevLen of
                       Inl e \<Rightarrow> Inl e
                     | Inr longer \<Rightarrow> if longer then Inl TypeError else Inr prevLen)
                | _ \<Rightarrow> Inr prevLen))"

text \<open>
  \<^verbatim>\<open>{ ...item, image_url }\<close> for a truthy item: the own properties of the item (the entries of an
  array and the code units of a string under their indices, none for a number or a boolean) with
  the new \<^verbatim>\<open>image_url\<close>. An \<^verbatim>\<open>image_url\<close> that is \<^verbatim>\<open>undefined\<close> leaves no property that reads as a
  value.
\<close>

fun spread :: "json \<Rightarrow> (jsstring \<times> json) list" where
  "spread (JObj kvs) = kvs"
| "spread (JArr xs) = zip (map showNat [0..<length xs]) xs"
| "spread (JStr t) = zip (map showNat [0..<length t]) (map (\<lambda>c. JStr [c]) t)"
| "spread _ = []"

definition withImageUrl :: "json \<Rightarrow> json option \<Rightarrow> json" where
  "withImageUrl item url =
     JObj (case url of
             None \<Rightarrow> AList.delete (js ''image_url'') (spread item)
           | Some u \<Rightarrow> AList.update (js ''image_url'') u (spread item))"

text \<open>
  The \<^verbatim>\<open>planImage\<close> branch, for a payload whose \<^verbatim>\<open>dayIdx\<close> and \<^verbatim>\<open>itemIdx\<close> are numbers, as its declared
  type says. Destructuring \<^verbatim>\<open>null\<close> throws into the \<^verbatim>\<open>catch\<close>. An index of another type names a
  property of the array (the string \<^verbatim>\<open>"0"\<close> its first entry, \<^verbatim>\<open>"length"\<close> its length); such payloads
  are outside this model, the definition leaves the state as it is for them, and no property
  proved below is about this branch.
\<close>

definition applyPlanImage :: "(jsstring \<Rightarrow> json option) \<Rightarrow> chatState \<Rightarrow> jsstring \<Rightarrow> chatState" where
  "applyPlanImage parse st dat =
     (case parse dat of
        None \<Rightarrow> st
      | Some p \<Rightarrow>
          (case (getProp p (js ''dayIdx''), getProp p (js ''itemIdx'')) of
             (Some (JNum dayIdx), Some (JNum itemIdx)) \<Rightarrow>
               (case nthOpt (planDays st) dayIdx of
                  None \<Rightarrow> st
                | Some items \<Rightarrow>
                    (case nthOpt items itemIdx of
                       None \<Rightarrow> st
                     | Some item \<Rightarrow>
                         if truthy item
                         then st\<lparr>planDays :=
                                 list_update (planDays st) (nat dayIdx)
                                   (list_update items (nat itemIdx)
                                      (withImageUrl item (getProp p (js ''image_url''))))\<rparr>
                         else st))
           | _ \<Rightarrow> st))"

text \<open>
  The \<^verbatim>\<open>jsonFinal\<close> branch. \<^verbatim>\<open>finalizedRef\<close> is set right after a successful parse. Then come the
  reply text, where reading \<^verbatim>\<open>parsed.replyText\<close> throws on \<^verbatim>\<open>null\<close>, and only after it the
  replacement of the plan. Every exception ends in the \<^verbatim>\<open>catch\<close> with the latch set and the plan
  as it was, and \<^verbatim>\<open>finally\<close> empties the buffer.
\<close>

definition applyFinal ::
  "(jsstring \<Rightarrow> json option) \<Rightarrow> (json \<Rightarrow> nat \<Rightarrow> bool) \<Rightarrow> chatState \<Rightarrow> jsstring \<Rightarrow> chatState" where
  "applyFinal parse exceeds st dat =
     (case parse dat of
        None \<Rightarrow> st\<lparr>jsonBuffer := []\<rparr>
      | Some parsed \<Rightarrow>
          if parsed = JNull then st\<lparr>finalized := True, jsonBuffer := []\<rparr>
          else (case finalizeText exceeds parsed (lastSeenReplyLen st) of
                  Inl e \<Rightarrow> st\<lparr>finalized := True, jsonBuffer := []\<rparr>
                | Inr n \<Rightarrow>
                    (case finalPlanDays parsed of
                       Inl e \<Rightarrow> st\<lparr>finalized := True, lastSeenReplyLen := n, jsonBuffer := []\<rparr>
                     | Inr final \<Rightarrow>
                         st\<lparr>finalized := True, lastSeenReplyLen := n, planDays := final,
                            jsonBuffer := []\<rparr>)))"

text \<open>
  The progressive text of the \<^verbatim>\<open>jsonDelta\<close> branch: the new value of \<^verbatim>\<open>lastSeenReplyLenRef\<close> when
  the buffer parses to \<open>tmp\<close> (\<open>None\<close> when \<^verbatim>\<open>JSON.parse\<close> throws). Only a reply text that is a string
  is looked at, and reading it from \<^verbatim>\<open>null\<close> throws into the empty \<^verbatim>\<open>catch\<close>.
\<close>

definition deltaText :: "json option \<Rightarrow> nat \<Rightarrow> nat" where
  "deltaText tmp prevLen =
     (case tmp of
        None \<Rightarrow> prevLen
      | Some p \<Rightarrow>
          (case getProp p (js ''replyText'') of
             Some (JStr full) \<Rightarrow> if prevLen < length full then length full else prevLen
           | _ \<Rightarrow> prevLen))"

text \<open>
  The \<^verbatim>\<open>jsonDelta\<close> branch: the buffer grows, the progressive text is read from it, and a
  non-empty extraction is merged by the state updater, where a TypeError of \<^verbatim>\<open>mergePlanProgress\<close>
  is not caught by the handler.
\<close>

definition applyDelta :: "(jsstring \<Rightarrow> json option) \<Rightarrow> chatState \<Rightarrow> jsstring \<Rightarrow> error + chatState" where
  "applyDelta parse st dat =
     (let buffer = jsonBuffer st @ dat;
          n = deltaText (parse buffer) (lastSeenReplyLen st);
          progress = extractCompletedActivities parse buffer
      in if length progress > 0
         then (case mergePlanProgress (planDays st) progress of
                 Inl e \<Rightarrow> Inl e
               | Inr merged \<Rightarrow>
                   Inr (st\<lparr>jsonBuffer := buffer, lastSeenReplyLen := n, planDays := merged\<rparr>))
         else Inr (st\<lparr>jsonBuffer := buffer, lastSeenReplyLen := n\<rparr>))"

text \<open>One call of the handler with an event name and its payload.\<close>

definition onEvent ::
  "(jsstring \<Rightarrow> json option) \<Rightarrow> (json \<Rightarrow> nat \<Rightarrow> bool) \<Rightarrow> chatState \<Rightarrow> jsstring \<times> jsstring
     \<Rightarrow> error + chatState" where
  "onEvent parse exceeds st e =
     (case e of (event, dat) \<Rightarrow>
        if finalized st \<and>
           (event = js ''jsonDelta'' \<or> event = js ''planImage'' \<or> event = js ''planImageError'')
        then Inr st
        else if event = js ''jsonDelta'' then applyDelta parse st dat
        else if event = js ''planImage'' then Inr (applyPlanImage parse st dat)
        else if event = js ''planImageError'' then Inr st
        else if event = js ''jsonFinal'' then Inr (applyFinal parse exceeds st dat)
        else Inr st)"

fun runEvents ::
  "(jsstring \<Rightarrow> json option) \<Rightarrow> (json \<Rightarrow> nat \<Rightarrow> bool) \<Rightarrow> chatState \<Rightarrow> (jsstring \<times> jsstring) list
     \<Rightarrow> error + chatState" where
  "runEvents parse exceeds st [] = Inr st"
| "runEvents parse exceeds st (e # es) =
     (case onEvent parse exceeds st e of
        Inl err \<Rightarrow> Inl err
      | Inr st1 \<Rightarrow> runEvents parse exceeds st1 es)"

text \<open>
  The reset at the head of \<^verbatim>\<open>handleSubmit\<close>; \<open>text\<close> is the trimmed input, and nothing happens
  when it is empty or a turn is still loading.
\<close>

definition handleSubmit :: "jsstring \<Rightarrow> bool \<Rightarrow> chatState \<Rightarrow> chatState" where
  "handleSubmit text loading st =
     (if text = [] \<or> loading then st
      else st\<lparr>lastSeenReplyLen := 0, jsonBuffer := [], finalized := False, planDays := []\<rparr>)"

section \<open>Drag and drop (Content.tsx)\<close>

text \<open>\<^verbatim>\<open>xs.splice(i, 1)\<close> and \<^verbatim>\<open>xs.splice(i, 0, x)\<close> for \<open>i\<close> within \<open>0..length\<close>.\<close>

definition spliceOut :: "'a list \<Rightarrow> nat \<Rightarrow> 'a list" where
  "spliceOut xs i = take i xs @ drop (Suc i) xs"

definition spliceIn :: "'a list \<Rightarrow> nat \<Rightarrow> 'a \<Rightarrow> 'a list" where
  "spliceIn xs i x = take i xs @ x # drop i xs"

record slot =
  day :: int
  index :: int

text \<open>The part of \<^verbatim>\<open>DragState\<close> that the drop reads; the rest is geometry of the pointer.\<close>

record dragState =
  fromDay :: int
  fromIndex :: int
  data :: json

definition performReorder :: "planDays \<Rightarrow> int \<Rightarrow> int \<Rightarrow> int \<Rightarrow> planDays" where
  "performReorder prev d fromIdx toIdx =
     (case nthOpt prev d of
        None \<Rightarrow> prev
      | Some src \<Rightarrow>
          if fromIdx < 0 \<or> fromIdx \<ge> int (length src) then prev
          else
            let moved = src ! nat fromIdx;
                removed = spliceOut src (nat fromIdx);
                clamped = max 0 (min toIdx (int (length removed)))
            in prev[nat d := spliceIn removed (nat clamped) moved])"

text \<open>
  \<^verbatim>\<open>src\<close> and \<^verbatim>\<open>dst\<close> are the same array when both days are the same, so the destination is
  read after the removal. \<^verbatim>\<open>moved ?? { ...data }\<close> takes the snapshot when the removed entry is
  \<^verbatim>\<open>null\<close>.
\<close>

definition performCrossDayMove :: "planDays \<Rightarrow> slot \<Rightarrow> slot \<Rightarrow> json \<Rightarrow> planDays" where
  "performCrossDayMove prev src_slot dst_slot snapshot =
     (case (nthOpt prev (day src_slot), nthOpt prev (day dst_slot)) of
        (Some src, Some _) \<Rightarrow>
          if index src_slot < 0 \<or> index src_slot \<ge> int (length src) then prev
          else
            let moved = src ! nat (index src_slot);
                copy = prev[nat (day src_slot) := spliceOut src (nat (index src_slot))];
                dst = copy ! nat (day dst_slot);
                insertIndex = max 0 (min (index dst_slot) (int (length dst)))
            in copy[nat (day dst_slot) :=
                 spliceIn dst (nat insertIndex) (case moved of JNull \<Rightarrow> snapshot | _ \<Rightarrow> moved)]
      | _ \<Rightarrow> prev)"

definition computeFinalTarget :: "dragState \<Rightarrow> slot option \<Rightarrow> planDays \<Rightarrow> slot" where
  "computeFinalTarget d t plan =
     (case t of
        None \<Rightarrow> \<lparr>day = fromDay d, index = fromIndex d\<rparr>
      | Some tg \<Rightarrow>
          let maxDay = max 0 (int (length plan) - 1);
              dy = max 0 (min (day tg) maxDay);
              maxIndex = (case nthOpt plan dy of Some xs \<Rightarrow> int (length xs) | None \<Rightarrow> 0);
              ix = max 0 (min (index tg) maxIndex)
          in \<lparr>day = dy, index = ix\<rparr>)"

text \<open>
  The plan update of \<^verbatim>\<open>onGlobalPointerUp\<close>, for an active drag. The plan the handler closed
  over, which \<^verbatim>\<open>computeFinalTarget\<close> reads, is taken to be the plan the state updater receives.
\<close>

definition dropItem :: "planDays \<Rightarrow> dragState \<Rightarrow> slot option \<Rightarrow> planDays" where
  "dropItem plan d t =
     (let finalTarget = computeFinalTarget d t plan in
      if day finalTarget \<noteq> fromDay d
      then performCrossDayMove plan \<lparr>day = fromDay d, index = fromIndex d\<rparr> finalTarget (data d)
      else performReorder plan (fromDay d) (fromIndex d) (index finalTarget))"


section \<open>Frame decoder (Chat.tsx, \<^verbatim>\<open>parseSSEStream\<close>)\<close>

text \<open>Prepending a code unit to the first piece of a split.\<close>

fun consHead :: "jschar \<Rightarrow> jsstring list \<Rightarrow> jsstring list" where
  "consHead c [] = [[c]]"
| "consHead c (f # fs) = (c # f) # fs"

text \<open>
  \<^verbatim>\<open>buffer.split('\n\n')\<close>: the separators are found from left to right without overlap, and
  the result always has a last piece (the text after the last separator, possibly empty).
\<close>

fun splitFrames :: "jsstring \<Rightarrow> jsstring list" where
  "splitFrames [] = [[]]"
| "splitFrames [c] = [[c]]"
| "splitFrames (c # d # cs) =
     (if c = 10 \<and> d = 10 then [] # splitFrames cs else consHead c (splitFrames (d # cs)))"

text \<open>\<^verbatim>\<open>frame.split('\n')\<close>.\<close>

fun splitLines :: "jsstring \<Rightarrow> jsstring list" where
  "splitLines [] = [[]]"
| "splitLines (c # cs) = (if c = 10 then [] # splitLines cs else consHead c (splitLines cs))"

text \<open>\<^verbatim>\<open>if (v.startsWith(' ')) v = v.slice(1)\<close> and \<^verbatim>\<open>v.replace(/\r$/, '')\<close>.\<close>

fun stripOneSpace :: "jsstring \<Rightarrow> jsstring" where
  "stripOneSpace [] = []"
| "stripOneSpace (c # cs) = (if c = 32 then cs else c # cs)"

definition stripTrailingCR :: "jsstring \<Rightarrow> jsstring" where
  "stripTrailingCR v = (if v \<noteq> [] \<and> last v = 13 then butlast v else v)"

text \<open>The body of the loop over the lines of a frame, on the locals \<^verbatim>\<open>ev\<close> and \<^verbatim>\<open>data\<close>.\<close>

definition frameLine :: "jsstring \<times> jsstring \<Rightarrow> jsstring \<Rightarrow> jsstring \<times> jsstring" where
  "frameLine acc raw =
     (case acc of (ev, dat) \<Rightarrow>
        if prefix (js ''event:'') raw
        then (stripTrailingCR (stripOneSpace (drop 6 raw)), dat)
        else if prefix (js ''data:'') raw
        then (ev, dat @ (if dat \<noteq> [] then [10] else []) @ stripTrailingCR (stripOneSpace (drop 5 raw)))
        else (ev, dat))"

definition parseFrame :: "jsstring \<Rightarrow> jsstring \<times> jsstring" where
  "parseFrame frame = foldl frameLine (js ''message'', []) (splitLines frame)"

text \<open>
  One call of the closure returned by \<^verbatim>\<open>parseSSEStream\<close>: from the buffer and a chunk to the
  new buffer and the calls of \<^verbatim>\<open>onEvent\<close>, in order.
\<close>

definition feed :: "jsstring \<Rightarrow> jsstring \<Rightarrow> jsstring \<times> (jsstring \<times> jsstring) list" where
  "feed buffer chunk =
     (let frames = splitFrames (buffer @ chunk)
      in (last frames, filter (\<lambda>(ev, dat). dat \<noteq> js ''[DONE]'') (map parseFrame (butlast frames))))"

text \<open>Feeding chunks one after the other, the buffer carried from call to call.\<close>

fun feedAll :: "jsstring \<Rightarrow> jsstring list \<Rightarrow> jsstring \<times> (jsstring \<times> jsstring) list" where
  "feedAll buffer [] = (buffer, [])"
| "feedAll buffer (chunk # chunks) =
     (case feed buffer chunk of (buffer1, events1) \<Rightarrow>
        (case feedAll buffer1 chunks of (buffer2, events2) \<Rightarrow> (buffer2, events1 @ events2)))"

section \<open>Cost normalizer (chat.js, \<^verbatim>\<open>coerceCost\<close>)\<close>

definition isWordChar :: "jschar \<Rightarrow> bool" where
  "isWordChar c \<longleftrightarrow> (48 \<le> c \<and> c \<le> 57) \<or> (65 \<le> c \<and> c \<le> 90) \<or> c = 95 \<or> (97 \<le> c \<and> c \<le> 122)"

definition isDigit :: "jschar \<Rightarrow> bool" where
  "isDigit c \<longleftrightarrow> 48 \<le> c \<and> c \<le> 57"

fun headOpt :: "jsstring \<Rightarrow> jschar option" where
  "headOpt [] = None"
| "headOpt (c # _) = Some c"

text \<open>
  \<^verbatim>\<open>\b\<close> between the code unit before a position and the one after it (\<open>None\<close> at either end
  of the string): exactly one of the two is a word character.
\<close>

definition wordBoundary :: "jschar option \<Rightarrow> jschar option \<Rightarrow> bool" where
  "wordBoundary p n \<longleftrightarrow>
     (case p of None \<Rightarrow> False | Some c \<Rightarrow> isWordChar c) \<noteq>
     (case n of None \<Rightarrow> False | Some c \<Rightarrow> isWordChar c)"

text \<open>
  A non-empty literal \<open>w\<close> matches at the head of \<open>s\<close>, with \<^verbatim>\<open>\b\<close> required before it when
  \<open>lb\<close> and after it when \<open>rb\<close>; \<open>p\<close> is the code unit before \<open>s\<close>.
\<close>

definition literalAt :: "bool \<Rightarrow> jsstring \<Rightarrow> bool \<Rightarrow> jschar option \<Rightarrow> jsstring \<Rightarrow> bool" where
  "literalAt lb w rb p s \<longleftrightarrow>
     prefix w s \<and>
     (lb \<longrightarrow> wordBoundary p (headOpt s)) \<and>
     (rb \<longrightarrow> wordBoundary (Some (last w)) (headOpt (drop (length w) s)))"

text \<open>\<^verbatim>\<open>/\bfree\b/.test(raw)\<close> and \<^verbatim>\<open>/\$0\b/.test(raw)\<close>: some position matches.\<close>

fun testLiteral :: "bool \<Rightarrow> jsstring \<Rightarrow> bool \<Rightarrow> jschar option \<Rightarrow> jsstring \<Rightarrow> bool" where
  "testLiteral lb w rb p [] = False"
| "testLiteral lb w rb p (c # cs) =
     (literalAt lb w rb p (c # cs) \<or> testLiteral lb w rb (Some c) cs)"

text \<open>\<^verbatim>\<open>replace(/[U+2013 U+2014]/g, "-")\<close>, the en dash and the em dash.\<close>

definition dashToHyphen :: "jschar \<Rightarrow> jschar" where
  "dashToHyphen c = (if c = 8211 \<or> c = 8212 then 45 else c)"

text \<open>\<^verbatim>\<open>replace(/\bto\b/g, "-")\<close>; after a match the scan goes on behind it.\<close>

fun replaceTo :: "jschar option \<Rightarrow> jsstring \<Rightarrow> jsstring" where
  "replaceTo p [] = []"
| "replaceTo p [c] = [c]"
| "replaceTo p (c # d # cs) =
     (if literalAt True (js ''to'') True p (c # d # cs)
      then 45 # replaceTo (Some d) cs
      else c # replaceTo (Some c) (d # cs))"

text \<open>\<^verbatim>\<open>replace(/~|\s+/g, " ")\<close>: a tilde, or a maximal run of white space, becomes one space.\<close>

fun replaceTildeSpaces :: "jsstring \<Rightarrow> jsstring" where
  "replaceTildeSpaces [] = []"
| "replaceTildeSpaces [c] = (if c = 126 \<or> isSpace c then [32] else [c])"
| "replaceTildeSpaces (c # d # cs) =
     (if c = 126 then 32 # replaceTildeSpaces (d # cs)
      else if isSpace c
      then (if isSpace d then replaceTildeSpaces (d # cs) else 32 # replaceTildeSpaces (d # cs))
      else c # replaceTildeSpaces (d # cs))"

text \<open>
  \<^verbatim>\<open>match(/\d{1,6}/g)\<close>: the runs of digits, a run longer than six cut into pieces of six
  from the left; \<open>cur\<close> is the piece being read.
\<close>

fun digitRuns :: "jsstring \<Rightarrow> jsstring \<Rightarrow> jsstring list" where
  "digitRuns cur [] = (if cur = [] then [] else [cur])"
| "digitRuns cur (c # cs) =
     (if isDigit c
      then (if length cur = 6 then cur # digitRuns [c] cs else digitRuns (cur @ [c]) cs)
      else (if cur = [] then digitRuns [] cs else cur # digitRuns [] cs))"

text \<open>\<^verbatim>\<open>parseInt(n, 10)\<close> of a string of digits, and \<^verbatim>\<open>x | 0\<close>.\<close>

definition parseInt :: "jsstring \<Rightarrow> nat" where
  "parseInt ds = foldl (\<lambda>a c. 10 * a + (c - 48)) 0 ds"

definition toInt32 :: "int \<Rightarrow> int" where
  "toInt32 n = (n + 2147483648) mod 4294967296 - 2147483648"

definition dollars :: "nat \<Rightarrow> jsstring" where
  "dollars n = 36 # showNat n"

definition dollarRange :: "nat \<Rightarrow> nat \<Rightarrow> jsstring" where
  "dollarRange a b = dollars a @ [8211] @ dollars b"

definition coerceCost :: "jsstring option \<Rightarrow> jsstring option" where
  "coerceCost input =
     (case input of
        None \<Rightarrow> None
      | Some inp \<Rightarrow>
          if inp = [] then None
          else
            let raw = toLowerCase (trim inp) in
            if testLiteral True (js ''free'') True None raw \<or> testLiteral False (js ''$0'') True None raw
            then Some (js ''free'')
            else
              let sepNormalized = trim (replaceTildeSpaces (replaceTo None (map dashToHyphen raw)));
                  nums = map parseInt (digitRuns [] sepNormalized)
              in
                if length nums = 1
                then Some (dollars (nat (max 0 (toInt32 (int (nums ! 0))))))
                else if length nums \<ge> 2
                then
                  (let a = min (nums ! 0) (nums ! 1); b = max (nums ! 0) (nums ! 1)
                   in if a = b then Some (dollars a) else Some (dollarRange a b))
                else if raw = js ''$$'' then Some (dollarRange 10 25)
                else if raw = js ''$$$'' then Some (dollarRange 25 50)
                else if length raw \<ge> 4 \<and> (\<forall>c \<in> set raw. c = 36) then Some (dollarRange 50 100)
                else None)"

section \<open>Server-side finalize (chat.js)\<close>

text \<open>
  A suggestion at its declared type, with the fields that are read. Plan items are objects as
  on the client; an array entry may also be \<^verbatim>\<open>undefined\<close>, which is \<open>None\<close>.
\<close>

record suggestion =
  name :: jsstring
  category :: jsstring
  why :: jsstring
  estSpend :: "jsstring option"

text \<open>The object built for a suggestion in \<^verbatim>\<open>suggestionsToStrictDays\<close>.\<close>

definition suggestionItem :: "suggestion \<Rightarrow> json" where
  "suggestionItem s =
     (let normalized = coerceCost (estSpend s) in
      JObj ([(js ''title'', JStr (name s)),
             (js ''short_description'',
                JStr (if why s \<noteq> [] then why s else if category s \<noteq> [] then category s else []))]
            @ (case normalized of
                 None \<Rightarrow> []
               | Some c \<Rightarrow> if c \<noteq> [] then [(js ''estimated_cost'', JStr c)] else [])))"

text \<open>
  \<open>nights\<close> is a number that is an integer, or absent. \<^verbatim>\<open>items[i % denom]\<close> is \<^verbatim>\<open>undefined\<close> for
  every \<open>i\<close> when there are no suggestions.
\<close>

definition suggestionsToStrictDays :: "suggestion list \<Rightarrow> int option \<Rightarrow> json option list list" where
  "suggestionsToStrictDays suggestions nights =
     (let days = nat (max 1 (case nights of None \<Rightarrow> 1 | Some n \<Rightarrow> n));
          items = map suggestionItem suggestions;
          perDay = min 5 (max 3 ((length items + days - 1) div days));
          needed = days * perDay;
          denom = max 1 (length items);
          pool = map (\<lambda>i. if i mod denom < length items then Some (items ! (i mod denom)) else None)
                   [0..<needed]
      in map (\<lambda>d. take perDay (drop (d * perDay) pool)) [0..<days])"

text \<open>
  \<^verbatim>\<open>normalizeTitleKey(item.title)\<close> for an array entry: reading \<^verbatim>\<open>.title\<close> throws on \<^verbatim>\<open>undefined\<close> and
  \<^verbatim>\<open>null\<close>, and \<^verbatim>\<open>toLowerCase\<close> throws unless the title is a string.
\<close>

definition titleKeyOf :: "json option \<Rightarrow> error + jsstring" where
  "titleKeyOf entry =
     (case entry of
        None \<Rightarrow> Inl TypeError
      | Some it \<Rightarrow>
          if it = JNull \<or> typeof (getProp it (js ''title'')) \<noteq> TString then Inl TypeError
          else Inr (normalizeTitleKey (title it)))"

text \<open>The loop of \<^verbatim>\<open>dedupeWithinDayByTitle\<close>.\<close>

fun dedupeByTitleLoop ::
  "json option list \<Rightarrow> jsstring set \<Rightarrow> json option list \<Rightarrow> error + json option list" where
  "dedupeByTitleLoop [] seen out = Inr out"
| "dedupeByTitleLoop (item # rest) seen out =
     (case titleKeyOf item of
        Inl e \<Rightarrow> Inl e
      | Inr key \<Rightarrow>
          if key \<in> seen then dedupeByTitleLoop rest seen out
          else dedupeByTitleLoop rest (insert key seen) (out @ [item]))"

definition dedupeWithinDayByTitle :: "json option list \<Rightarrow> error + json option list" where
  "dedupeWithinDayByTitle dayItems = dedupeByTitleLoop dayItems {} []"

text \<open>\<^verbatim>\<open>new Set(day.map(a => normalizeTitleKey(a.title)))\<close>.\<close>

fun titleKeys :: "json option list \<Rightarrow> error + jsstring set" where
  "titleKeys [] = Inr {}"
| "titleKeys (a # rest) =
     (case titleKeyOf a of
        Inl e \<Rightarrow> Inl e
      | Inr key \<Rightarrow> (case titleKeys rest of Inl e \<Rightarrow> Inl e | Inr ks \<Rightarrow> Inr (insert key ks)))"

text \<open>
  The loop over the candidates of one pool, on the locals \<^verbatim>\<open>day\<close> and \<^verbatim>\<open>titles\<close>; it breaks
  right after the push that reaches \<^verbatim>\<open>needMin = 3\<close>.
\<close>

fun fillFromPool ::
  "json option list \<Rightarrow> jsstring set \<Rightarrow> json option list \<Rightarrow> error + (json option list \<times> jsstring set)" where
  "fillFromPool [] titles dayItems = Inr (dayItems, titles)"
| "fillFromPool (cand # pool) titles dayItems =
     (case titleKeyOf cand of
        Inl e \<Rightarrow> Inl e
      | Inr key \<Rightarrow>
          if key \<notin> titles
          then (if length (dayItems @ [cand]) \<ge> 3 then Inr (dayItems @ [cand], insert key titles)
                else fillFromPool pool (insert key titles) (dayItems @ [cand]))
          else fillFromPool pool titles dayItems)"

text \<open>The loop over \<^verbatim>\<open>tryPools\<close>, which breaks once the day has three items.\<close>

fun fillFromPools ::
  "json option list list \<Rightarrow> jsstring set \<Rightarrow> json option list \<Rightarrow> error + json option list" where
  "fillFromPools [] titles dayItems = Inr dayItems"
| "fillFromPools (pool # pools) titles dayItems =
     (case fillFromPool pool titles dayItems of
        Inl e \<Rightarrow> Inl e
      | Inr (filled, titles1) \<Rightarrow>
          if length filled \<ge> 3 then Inr filled else fillFromPools pools titles1 filled)"

text \<open>One round of the loop of \<^verbatim>\<open>enforceDayCount3to5\<close>, for day \<open>i\<close> with \<^verbatim>\<open>planDays[i] || []\<close>.\<close>

definition enforceDay ::
  "json option list list \<Rightarrow> nat \<Rightarrow> json option list \<Rightarrow> error + json option list" where
  "enforceDay fallback i rawDay =
     (case dedupeWithinDayByTitle rawDay of
        Inl e \<Rightarrow> Inl e
      | Inr deduped \<Rightarrow>
          (case titleKeys (take 5 deduped) of
             Inl e \<Rightarrow> Inl e
           | Inr titles \<Rightarrow>
               if length (take 5 deduped) < 3
               then
                 (let tryPools = (if i < length fallback then [fallback ! i] else [])
                                 @ (if length fallback > 0 then [concat fallback] else [])
                  in case fillFromPools tryPools titles (take 5 deduped) of
                       Inl e \<Rightarrow> Inl e
                     | Inr filled \<Rightarrow> Inr (take 5 filled))
               else Inr (take 5 (take 5 deduped))))"

fun enforceLoop ::
  "json option list list \<Rightarrow> json option list list \<Rightarrow> nat list \<Rightarrow> error + json option list list" where
  "enforceLoop fallback plan [] = Inr []"
| "enforceLoop fallback plan (i # rest) =
     (case enforceDay fallback i (if i < length plan then plan ! i else []) of
        Inl e \<Rightarrow> Inl e
      | Inr d \<Rightarrow>
          (case enforceLoop fallback plan rest of Inl e \<Rightarrow> Inl e | Inr ds \<Rightarrow> Inr (d # ds)))"

definition enforceDayCount3to5 ::
  "json option list list \<Rightarrow> suggestion list \<Rightarrow> int option \<Rightarrow> error + json option list list" where
  "enforceDayCount3to5 plan suggestions nights =
     (let daysCount = max (length plan) 1;
          fallback = suggestionsToStrictDays suggestions
                       (Some (case nights of None \<Rightarrow> int daysCount | Some n \<Rightarrow> n))
      in enforceLoop fallback plan [0..<daysCount])"

section \<open>Example data\<close>

definition mkItem :: "string \<Rightarrow> string \<Rightarrow> json" where
  "mkItem t s = JObj [(js ''title'', JStr (js t)), (js ''short_description'', JStr (js s))]"

definition itZoo :: json where "itZoo = mkItem ''Zoo'' ''Animals''"
definition itVisitZoo :: json where "itVisitZoo = mkItem ''Visit Zoo'' ''Moved here by a drag''"
definition itPark :: json where "itPark = mkItem ''Balboa Park'' ''Walk''"
definition itTown :: json where "itTown = mkItem ''Old Town'' ''History''"
definition itPier :: json where "itPier = mkItem ''Pier'' ''Sunset''"
definition itCafe :: json where "itCafe = mkItem ''Cafe'' ''Coffee''"
definition itMuseum :: json where "itMuseum = mkItem ''Museum'' ''Art''"

text \<open>The texts of three example payloads, and \<^verbatim>\<open>JSON.parse\<close> restricted to these texts.\<close>

definition txtPier :: jsstring where
  "txtPier = js ''{\"title\":\"Pier\",\"short_description\":\"Sunset\"}''"

definition txtCafe :: jsstring where
  "txtCafe = js ''{\"title\":\"Cafe\",\"short_description\":\"Coffee\"}''"

definition txtFinal :: jsstring where
  "txtFinal = js ''{\"replyText\":\"Hi\",\"planDays\":[[{\"title\":\"Zoo\",\"short_description\":\"Animals\"}]]}''"

definition docFinal :: json where
  "docFinal = JObj [(js ''replyText'', JStr (js ''Hi'')), (js ''planDays'', JArr [JArr [itZoo]])]"

text \<open>A final payload whose reply text is an object with a \<^verbatim>\<open>length\<close>, not a string.\<close>

definition docOddFinal :: json where
  "docOddFinal =
     JObj [(js ''replyText'', JObj [(js ''length'', JNum 5)]), (js ''planDays'', JArr [JArr [itZoo]])]"

definition parseExample :: "jsstring \<Rightarrow> json option" where
  "parseExample s =
     (if s = txtPier then Some itPier
      else if s = txtCafe then Some itCafe
      else if s = txtFinal then Some docFinal
      else None)"

text \<open>A stream cut after the first day, and the same stream after one more item and bracket.\<close>

definition txtStream1 :: jsstring where
  "txtStream1 = js ''{\"replyText\":\"Hi\",\"planDays\": [[{\"title\":\"Pier\",\"short_description\":\"Sunset\"}],[''"

definition txtStream2 :: jsstring where
  "txtStream2 = js ''{\"title\":\"Cafe\",\"short_description\":\"Coffee\"}],''"



text \<open>Five suggestions whose items are the example items, and the pool they give for one night.\<close>

definition mkSuggestion :: "string \<Rightarrow> string \<Rightarrow> suggestion" where
  "mkSuggestion n w = \<lparr>name = js n, category = js ''sight'', why = js w, estSpend = None\<rparr>"

definition exSuggestions :: "suggestion list" where
  "exSuggestions =
     [mkSuggestion ''Zoo'' ''Animals'', mkSuggestion ''Balboa Park'' ''Walk'',
      mkSuggestion ''Old Town'' ''History'', mkSuggestion ''Pier'' ''Sunset'',
      mkSuggestion ''Cafe'' ''Coffee'']"

definition exFallback :: "json option list list" where
  "exFallback = [[Some itZoo, Some itPark, Some itTown, Some itPier, Some itCafe]]"

section \<open>Auxiliary notions for the proofs\<close>

text \<open>An array entry whose title key can be computed, and that key.\<close>

definition validEntry :: "json option \<Rightarrow> bool" where
  "validEntry e \<longleftrightarrow> (\<exists>k. titleKeyOf e = Inr k)"

definition entryKey :: "json option \<Rightarrow> jsstring" where
  "entryKey e = (case titleKeyOf e of Inr k \<Rightarrow> k | Inl _ \<Rightarrow> [])"

section \<open>Properties of dedup and merge\<close>

subsection \<open>Within-day dedup\<close>

lemma dedupeLoop_fixed:
  "list_all isStrictItem dy \<Longrightarrow>
   distinct (map (\<lambda>it. normalizeTitleKey (title it)) dy) \<Longrightarrow>
   (\<forall>it \<in> set dy. normalizeTitleKey (title it) \<notin> seen) \<Longrightarrow>
   length out + length dy \<le> 5 \<Longrightarrow>
   dedupeLoop dy seen out = out @ dy"
proof (induction dy arbitrary: seen out)
  case Nil
  then show ?case by simp
next
  case (Cons it rest)
  show ?case
  proof (cases "5 \<le> length (out @ [it])")
    case True
    with Cons.prems(4) have "rest = []" by (cases rest) auto
    with Cons.prems True show ?thesis by (simp add: Let_def)
  next
    case False
    have "dedupeLoop rest (insert (normalizeTitleKey (title it)) seen) (out @ [it]) = (out @ [it]) @ rest"
      using Cons.prems by (intro Cons.IH) (auto simp: image_iff)
    with Cons.prems False show ?thesis by (simp add: Let_def)
  qed
qed

lemma dedupeWithinDay_fixed: "dayOk dy \<Longrightarrow> dedupeWithinDay dy = dy"
  unfolding dayOk_def dedupeWithinDay_def
  using dedupeLoop_fixed [of dy "{}" "[]"] by simp

lemma dedupeLoop_ok:
  "list_all isStrictItem out \<Longrightarrow>
   distinct (map (\<lambda>it. normalizeTitleKey (title it)) out) \<Longrightarrow>
   (\<forall>it \<in> set out. normalizeTitleKey (title it) \<in> seen) \<Longrightarrow>
   length out < 5 \<Longrightarrow>
   dayOk (dedupeLoop dy seen out)"
proof (induction dy arbitrary: seen out)
  case Nil
  then show ?case by (simp add: dayOk_def)
next
  case (Cons it rest)
  show ?case
  proof (cases "isStrictItem it \<and> normalizeTitleKey (title it) \<notin> seen")
    case False
    then show ?thesis using Cons.IH [OF Cons.prems] by (auto simp: Let_def)
  next
    case True
    have ok: "list_all isStrictItem (out @ [it])"
      "distinct (map (\<lambda>it. normalizeTitleKey (title it)) (out @ [it]))"
      "\<forall>x \<in> set (out @ [it]). normalizeTitleKey (title x) \<in> insert (normalizeTitleKey (title it)) seen"
      using True Cons.prems by auto
    show ?thesis
    proof (cases "5 \<le> length (out @ [it])")
      case five: True
      then have "dedupeLoop (it # rest) seen out = out @ [it]"
        using True by (simp add: Let_def)
      moreover have "length (out @ [it]) \<le> 5" using Cons.prems(4) by simp
      ultimately show ?thesis using ok by (simp add: dayOk_def)
    next
      case less: False
      then have "dedupeLoop (it # rest) seen out
                  = dedupeLoop rest (insert (normalizeTitleKey (title it)) seen) (out @ [it])"
        using True by (simp add: Let_def)
      moreover have "length (out @ [it]) < 5" using less by simp
      ultimately show ?thesis using Cons.IH [OF ok] by simp
    qed
  qed
qed

lemma dedupeWithinDay_ok: "dayOk (dedupeWithinDay dy)"
  unfolding dedupeWithinDay_def by (rule dedupeLoop_ok) simp_all

lemma strict_has_title:
  "isStrictItem it \<Longrightarrow> it \<noteq> JNull \<and> typeof (getProp it (js ''title'')) = TString"
  by (auto simp: isStrictItem_def)

lemma mergeDay_Inr:
  "list_all isStrictItem existing \<Longrightarrow>
   mergeDay existing inc = Inr (dedupeWithinDay
      (mergeItems inc (set (map (\<lambda>it. normalizeTitleKey (title it)) existing)) existing))"
  unfolding mergeDay_def using strict_has_title by (auto simp: list_all_iff)

subsection \<open>The inner merge loop\<close>

lemma mergeItems_extends: "\<exists>added. mergeItems inc seen existing = existing @ added"
proof (induction inc arbitrary: seen existing)
  case Nil
  then show ?case by simp
next
  case (Cons it rest)
  from Cons.IH [of "insert (normalizeTitleKey (title it)) seen" "existing @ [it]"]
  obtain added where "mergeItems rest (insert (normalizeTitleKey (title it)) seen) (existing @ [it])
      = existing @ it # added" by auto
  with Cons.IH [of seen existing] show ?case by (auto simp: Let_def)
qed

lemma mergeItems_ok:
  "dayOk existing \<Longrightarrow> seen = set (map (\<lambda>it. normalizeTitleKey (title it)) existing) \<Longrightarrow>
   dayOk (mergeItems inc seen existing)"
proof (induction inc arbitrary: seen existing)
  case Nil
  then show ?case by simp
next
  case (Cons it rest)
  show ?case
  proof (cases "isStrictItem it \<and> length existing < 5 \<and> normalizeTitleKey (title it) \<notin> seen")
    case False
    then show ?thesis using Cons.IH [OF Cons.prems] Cons.prems(1) by (auto simp: Let_def)
  next
    case True
    have "dayOk (existing @ [it])"
      using True Cons.prems by (auto simp: dayOk_def)
    moreover have "insert (normalizeTitleKey (title it)) seen
        = set (map (\<lambda>it. normalizeTitleKey (title it)) (existing @ [it]))"
      using Cons.prems(2) by simp
    ultimately have "dayOk (mergeItems rest (insert (normalizeTitleKey (title it)) seen) (existing @ [it]))"
      by (rule Cons.IH)
    then show ?thesis using True by (simp add: Let_def)
  qed
qed

lemma mergeItems_noop:
  "5 \<le> length existing \<or> (\<forall>it \<in> set inc. isStrictItem it \<longrightarrow> normalizeTitleKey (title it) \<in> seen) \<Longrightarrow>
   mergeItems inc seen existing = existing"
  by (induction inc) (auto simp: Let_def)

lemma mergeItems_saturates:
  "seen = set (map (\<lambda>it. normalizeTitleKey (title it)) existing) \<Longrightarrow>
   m = mergeItems inc seen existing \<Longrightarrow>
   5 \<le> length m \<or>
   (\<forall>it \<in> set inc. isStrictItem it \<longrightarrow>
      normalizeTitleKey (title it) \<in> set (map (\<lambda>it. normalizeTitleKey (title it)) m))"
proof (induction inc arbitrary: seen existing)
  case Nil
  then show ?case by simp
next
  case (Cons it rest)
  obtain added where ext: "m = existing @ added"
    using mergeItems_extends [of "it # rest" seen existing] Cons.prems(2) by auto
  show ?case
  proof (cases "isStrictItem it")
    case False
    then show ?thesis using Cons.IH [of seen existing] Cons.prems by auto
  next
    case strict: True
    show ?thesis
    proof (cases "5 \<le> length existing")
      case True
      then show ?thesis using ext by simp
    next
      case short: False
      show ?thesis
      proof (cases "normalizeTitleKey (title it) \<in> seen")
        case True
        then have "m = mergeItems rest seen existing"
          using Cons.prems(2) strict short by (simp add: Let_def)
        from Cons.IH [OF Cons.prems(1) this] True Cons.prems(1) ext show ?thesis by auto
      next
        case False
        then have m: "m = mergeItems rest (insert (normalizeTitleKey (title it)) seen) (existing @ [it])"
          using Cons.prems(2) strict short by (simp add: Let_def)
        obtain added' where "m = (existing @ [it]) @ added'"
          using mergeItems_extends [of rest "insert (normalizeTitleKey (title it)) seen" "existing @ [it]"] m
          by auto
        then have "it \<in> set m" by simp
        moreover have "insert (normalizeTitleKey (title it)) seen
            = set (map (\<lambda>it. normalizeTitleKey (title it)) (existing @ [it]))"
          using Cons.prems(1) by simp
        from Cons.IH [OF this m] have "5 \<le> length m \<or>
           (\<forall>it \<in> set rest. isStrictItem it \<longrightarrow>
              normalizeTitleKey (title it) \<in> set (map (\<lambda>it. normalizeTitleKey (title it)) m))" .
        ultimately show ?thesis by auto
      qed
    qed
  qed
qed

lemma mergeDay_ok:
  assumes "list_all isStrictItem existing"
  shows "\<exists>m. mergeDay existing inc = Inr m \<and> dayOk m"
  using mergeDay_Inr [OF assms] dedupeWithinDay_ok by simp

lemma mergeDay_idem:
  assumes "dayOk existing"
  shows "\<exists>m. mergeDay existing inc = Inr m \<and> mergeDay m inc = Inr m"
proof -
  let ?K = "\<lambda>it. normalizeTitleKey (title it)"
  define m where "m = mergeItems inc (set (map ?K existing)) existing"
  have strict: "list_all isStrictItem existing" using assms by (simp add: dayOk_def)
  have okm: "dayOk m" unfolding m_def using assms by (rule mergeItems_ok) simp
  then have strictm: "list_all isStrictItem m" by (simp add: dayOk_def)
  have first: "mergeDay existing inc = Inr m"
    using mergeDay_Inr [OF strict, of inc] dedupeWithinDay_fixed [OF okm] by (simp add: m_def)
  have "5 \<le> length m \<or> (\<forall>it \<in> set inc. isStrictItem it \<longrightarrow> ?K it \<in> set (map ?K m))"
    by (rule mergeItems_saturates [OF refl m_def])
  then have "mergeItems inc (set (map ?K m)) m = m" by (rule mergeItems_noop)
  then have "mergeDay m inc = Inr m"
    using mergeDay_Inr [OF strictm, of inc] dedupeWithinDay_fixed [OF okm] by simp
  with first show ?thesis by blast
qed

lemma mergePlanProgress_ok:
  "planOk prev \<Longrightarrow> \<exists>m. mergePlanProgress prev incoming = Inr m \<and> planOk m"
proof (induction prev incoming rule: mergePlanProgress.induct)
  case (1 out)
  then show ?case by simp
next
  case (2 inc incs)
  obtain d where d: "mergeDay [] inc = Inr d" "dayOk d" using mergeDay_ok [of "[]" inc] by auto
  obtain ds where "mergePlanProgress [] incs = Inr ds" "planOk ds"
    using 2 d(1) by auto
  with d show ?case by (simp add: planOk_def)
next
  case (3 existing rest inc incs)
  then have "list_all isStrictItem existing" "planOk rest" by (simp_all add: planOk_def dayOk_def)
  obtain d where d: "mergeDay existing inc = Inr d" "dayOk d"
    using mergeDay_ok [OF \<open>list_all isStrictItem existing\<close>, of inc] by auto
  obtain ds where "mergePlanProgress rest incs = Inr ds" "planOk ds"
    using 3 d(1) \<open>planOk rest\<close> by auto
  with d show ?case by (simp add: planOk_def)
qed

lemma dedupeLoop_take:
  "list_all isStrictItem dy \<Longrightarrow>
   distinct (map (\<lambda>it. normalizeTitleKey (title it)) dy) \<Longrightarrow>
   (\<forall>it \<in> set dy. normalizeTitleKey (title it) \<notin> seen) \<Longrightarrow>
   length out < 5 \<Longrightarrow>
   dedupeLoop dy seen out = out @ take (5 - length out) dy"
proof (induction dy arbitrary: seen out)
  case Nil
  then show ?case by simp
next
  case (Cons it rest)
  have suc: "5 - length out = Suc (4 - length out)" using Cons.prems(4) by simp
  show ?case
  proof (cases "5 \<le> length (out @ [it])")
    case True
    then have "4 - length out = 0" by simp
    with Cons.prems True suc show ?thesis by (simp add: Let_def)
  next
    case False
    then have "length (out @ [it]) < 5" by simp
    then have "dedupeLoop rest (insert (normalizeTitleKey (title it)) seen) (out @ [it])
        = (out @ [it]) @ take (5 - length (out @ [it])) rest"
      using Cons.prems by (intro Cons.IH) (auto simp: image_iff)
    with Cons.prems False suc show ?thesis by (simp add: Let_def)
  qed
qed

lemma dedupeWithinDay_take: "dayDistinct dy \<Longrightarrow> dedupeWithinDay dy = take 5 dy"
  unfolding dayDistinct_def dedupeWithinDay_def
  using dedupeLoop_take [of dy "{}" "[]"] by simp

lemma dayDistinct_take: "dayDistinct dy \<Longrightarrow> dayOk (take 5 dy)"
proof -
  assume d: "dayDistinct dy"
  then have "list_all isStrictItem (take 5 dy)"
    by (auto simp: dayDistinct_def list_all_iff dest: in_set_takeD)
  moreover have "distinct (map (\<lambda>it. normalizeTitleKey (title it)) (take 5 dy))"
    using d by (simp add: dayDistinct_def take_map [symmetric] distinct_take)
  ultimately show ?thesis by (simp add: dayOk_def)
qed

lemma mergeDay_idem_distinct:
  assumes "dayDistinct existing"
  shows "\<exists>m. mergeDay existing inc = Inr m \<and> mergeDay m inc = Inr m"
proof (cases "length existing \<le> 5")
  case True
  with assms have "dayOk existing" by (simp add: dayOk_def dayDistinct_def)
  then show ?thesis by (rule mergeDay_idem)
next
  case False
  let ?K = "\<lambda>it. normalizeTitleKey (title it)"
  define m where "m = take 5 existing"
  have strict: "list_all isStrictItem existing" using assms by (simp add: dayDistinct_def)
  have full: "5 \<le> length existing" using False by simp
  have okm: "dayOk m" unfolding m_def using assms by (rule dayDistinct_take)
  then have strictm: "list_all isStrictItem m" by (simp add: dayOk_def)
  have fullm: "5 \<le> length m" using full by (simp add: m_def)
  have "mergeItems inc (set (map ?K existing)) existing = existing"
    using full by (intro mergeItems_noop) simp
  then have first: "mergeDay existing inc = Inr m"
    using mergeDay_Inr [OF strict, of inc] dedupeWithinDay_take [OF assms] by (simp add: m_def)
  have "mergeItems inc (set (map ?K m)) m = m"
    using fullm by (intro mergeItems_noop) simp
  then have "mergeDay m inc = Inr m"
    using mergeDay_Inr [OF strictm, of inc] dedupeWithinDay_fixed [OF okm] by simp
  with first show ?thesis by blast
qed

lemma mergePlanProgress_idem:
  "list_all dayDistinct (take (length incoming) prev) \<Longrightarrow>
   \<exists>m. mergePlanProgress prev incoming = Inr m \<and> mergePlanProgress m incoming = Inr m"
proof (induction prev incoming rule: mergePlanProgress.induct)
  case (1 out)
  then show ?case by (cases out) simp_all
next
  case (2 inc incs)
  have "dayDistinct []" by (simp add: dayDistinct_def)
  then obtain d where d: "mergeDay [] inc = Inr d" "mergeDay d inc = Inr d"
    using mergeDay_idem_distinct by blast
  obtain ds where "mergePlanProgress [] incs = Inr ds" "mergePlanProgress ds incs = Inr ds"
    using 2 d(1) by auto
  with d show ?case by simp
next
  case (3 existing rest inc incs)
  then have ok: "dayDistinct existing" "list_all dayDistinct (take (length incs) rest)" by simp_all
  obtain d where d: "mergeDay existing inc = Inr d" "mergeDay d inc = Inr d"
    using mergeDay_idem_distinct [OF ok(1)] by blast
  obtain ds where "mergePlanProgress rest incs = Inr ds" "mergePlanProgress ds incs = Inr ds"
    using 3 d(1) ok(2) by auto
  with d show ?case by simp
qed

subsection \<open>Evaluating the example data\<close>

lemmas key_eval = normalizeTitleKey_def toLowerCase_def js_def lowerUnit_def stripGenericVerb_def
  genericVerbs_def isSpace_def replaceAmpersand_def isKeyChar_def trim_def

lemma isStrictItem_mkItem [simp]: "isStrictItem (mkItem t s)"
  by (simp add: isStrictItem_def mkItem_def js_def)

lemma title_mkItem [simp]: "title (mkItem t s) = js t"
  by (simp add: title_def mkItem_def)

lemma example_strict [simp]:
  "isStrictItem itZoo" "isStrictItem itVisitZoo" "isStrictItem itPark"
  "isStrictItem itTown" "isStrictItem itPier" "isStrictItem itCafe" "isStrictItem itMuseum"
  by (simp_all add: itZoo_def itVisitZoo_def itPark_def itTown_def itPier_def itCafe_def itMuseum_def)

lemma example_keys [simp]:
  "normalizeTitleKey (title itZoo) = js ''zoo''"
  "normalizeTitleKey (title itVisitZoo) = js ''zoo''"
  "normalizeTitleKey (title itPark) = js ''balboa park''"
  "normalizeTitleKey (title itTown) = js ''old town''"
  "normalizeTitleKey (title itPier) = js ''pier''"
  "normalizeTitleKey (title itCafe) = js ''cafe''"
  "normalizeTitleKey (title itMuseum) = js ''museum''"
  by (simp_all add: itZoo_def itVisitZoo_def itPark_def itTown_def itPier_def itCafe_def itMuseum_def
      key_eval)

lemma example_key_neq [simp]:
  "js ''zoo'' \<noteq> js ''balboa park''" "js ''zoo'' \<noteq> js ''old town''" "js ''zoo'' \<noteq> js ''pier''"
  "js ''zoo'' \<noteq> js ''cafe''" "js ''balboa park'' \<noteq> js ''old town''"
  "js ''balboa park'' \<noteq> js ''pier''" "js ''balboa park'' \<noteq> js ''cafe''"
  "js ''old town'' \<noteq> js ''pier''" "js ''old town'' \<noteq> js ''cafe''" "js ''pier'' \<noteq> js ''cafe''"
  "js ''balboa park'' \<noteq> js ''zoo''" "js ''old town'' \<noteq> js ''zoo''" "js ''pier'' \<noteq> js ''zoo''"
  "js ''cafe'' \<noteq> js ''zoo''" "js ''old town'' \<noteq> js ''balboa park''"
  "js ''pier'' \<noteq> js ''balboa park''" "js ''cafe'' \<noteq> js ''balboa park''"
  "js ''pier'' \<noteq> js ''old town''" "js ''cafe'' \<noteq> js ''old town''" "js ''cafe'' \<noteq> js ''pier''"
  by (simp_all add: js_def)

lemma museum_key_neq [simp]:
  "js ''zoo'' \<noteq> js ''museum''" "js ''balboa park'' \<noteq> js ''museum''"
  "js ''old town'' \<noteq> js ''museum''" "js ''pier'' \<noteq> js ''museum''"
  "js ''cafe'' \<noteq> js ''museum''" "js ''museum'' \<noteq> js ''zoo''"
  "js ''museum'' \<noteq> js ''balboa park''" "js ''museum'' \<noteq> js ''old town''"
  "js ''museum'' \<noteq> js ''pier''" "js ''museum'' \<noteq> js ''cafe''"
  by (simp_all add: js_def)

lemma example_item_neq [simp]:
  "itZoo \<noteq> itVisitZoo" "itVisitZoo \<noteq> itZoo" "itPier \<noteq> itCafe" "itCafe \<noteq> itPier"
  "itPier \<noteq> JNull" "itZoo \<noteq> JNull"
  "itPier \<noteq> itZoo" "itPier \<noteq> itPark" "itPier \<noteq> itTown" "itPier \<noteq> itVisitZoo"
  "itZoo \<noteq> itPier" "itPark \<noteq> itPier" "itTown \<noteq> itPier"
  "itCafe \<noteq> JNull" "itVisitZoo \<noteq> JNull" "itMuseum \<noteq> JNull"
  by (simp_all add: itZoo_def itVisitZoo_def itPark_def itTown_def itPier_def itCafe_def itMuseum_def
      mkItem_def js_def)

lemma moved_not_null:
  "moved \<noteq> JNull \<Longrightarrow> (case moved of JNull \<Rightarrow> snapshot | _ \<Rightarrow> moved) = moved"
  by (cases moved) simp_all

section \<open>Claims about merge and dedup\<close>

text \<open>
  C2. \<^verbatim>\<open>mergePlanProgress\<close> is idempotent on a document whose days hold no duplicate where
  the candidate reaches them: when every day of \<open>prev\<close> at a position below
  \<^verbatim>\<open>incoming.length\<close> holds strict items with pairwise distinct normalized title keys, however
  many of them, merging \<open>incoming\<close> succeeds and merging the same \<open>incoming\<close> into the result
  again returns the result unchanged.
\<close>

theorem mergePlanProgress_idempotent:
  assumes "list_all dayDistinct (take (length incoming) prev)"
  shows "\<exists>m. mergePlanProgress prev incoming = Inr m \<and> mergePlanProgress m incoming = Inr m"
  using assms by (rule mergePlanProgress_idem)

text \<open>
  The theorem at a day of six items, which one drop produces (\<open>drop_exceeds_cap\<close> below), with
  a second day that repeats an item and lies beyond the candidate.
\<close>

theorem mergePlanProgress_idempotent_witness:
  "list_all dayDistinct (take (length [[itVisitZoo, itMuseum]])
     [[itZoo, itPark, itTown, itPier, itCafe, itMuseum], [itPier, itPier]]) \<and>
   mergePlanProgress [[itZoo, itPark, itTown, itPier, itCafe, itMuseum], [itPier, itPier]]
       [[itVisitZoo, itMuseum]]
     = Inr [[itZoo, itPark, itTown, itPier, itCafe], [itPier, itPier]] \<and>
   mergePlanProgress [[itZoo, itPark, itTown, itPier, itCafe], [itPier, itPier]]
       [[itVisitZoo, itMuseum]]
     = Inr [[itZoo, itPark, itTown, itPier, itCafe], [itPier, itPier]]"
proof -
  let ?prev = "[[itZoo, itPark, itTown, itPier, itCafe, itMuseum], [itPier, itPier]]"
  let ?inc = "[[itVisitZoo, itMuseum]]"
  let ?m = "[[itZoo, itPark, itTown, itPier, itCafe], [itPier, itPier]]"
  have ok: "list_all dayDistinct (take (length ?inc) ?prev)"
    by (simp add: dayDistinct_def)
  have first: "mergePlanProgress ?prev ?inc = Inr ?m"
    by (simp add: mergeDay_def dedupeWithinDay_def strict_has_title)
  from mergePlanProgress_idempotent [OF ok]
  obtain m where "mergePlanProgress ?prev ?inc = Inr m" "mergePlanProgress m ?inc = Inr m"
    by blast
  with first have "mergePlanProgress ?m ?inc = Inr ?m"
    by simp
  with ok first show ?thesis by blast
qed

text \<open>
  A day of six items with distinct keys, from a document inside the invariant by one drop: the
  user drops the only item of day 1 at the end of day 0.
\<close>

lemma drop_exceeds_cap:
  "planOk [[itZoo, itPark, itTown, itPier, itCafe], [itMuseum]] \<and>
   dropItem [[itZoo, itPark, itTown, itPier, itCafe], [itMuseum]]
      \<lparr>fromDay = 1, fromIndex = 0, data = itMuseum\<rparr> (Some \<lparr>day = 0, index = 5\<rparr>)
     = [[itZoo, itPark, itTown, itPier, itCafe, itMuseum], []] \<and>
   \<not> planOk [[itZoo, itPark, itTown, itPier, itCafe, itMuseum], []] \<and>
   list_all dayDistinct [[itZoo, itPark, itTown, itPier, itCafe, itMuseum], []]"
  by (simp add: planOk_def dayOk_def dayDistinct_def dropItem_def computeFinalTarget_def
      performCrossDayMove_def nthOpt_def spliceOut_def spliceIn_def Let_def moved_not_null)

text \<open>
  A document outside the invariant that two drops produce from one inside it: the user moves
  Cafe out of day 0 and then drops the second zoo entry of day 1 at the head of day 0.
\<close>

lemma drags_break_invariant:
  "planOk [[itZoo, itPark, itTown, itPier, itCafe], [itVisitZoo]] \<and>
   dropItem [[itZoo, itPark, itTown, itPier, itCafe], [itVisitZoo]]
      \<lparr>fromDay = 0, fromIndex = 4, data = itCafe\<rparr> (Some \<lparr>day = 1, index = 1\<rparr>)
     = [[itZoo, itPark, itTown, itPier], [itVisitZoo, itCafe]] \<and>
   dropItem [[itZoo, itPark, itTown, itPier], [itVisitZoo, itCafe]]
      \<lparr>fromDay = 1, fromIndex = 0, data = itVisitZoo\<rparr> (Some \<lparr>day = 0, index = 0\<rparr>)
     = [[itVisitZoo, itZoo, itPark, itTown, itPier], [itCafe]] \<and>
   \<not> planOk [[itVisitZoo, itZoo, itPark, itTown, itPier], [itCafe]]"
  by (simp add: planOk_def dayOk_def dropItem_def computeFinalTarget_def performCrossDayMove_def
      nthOpt_def spliceOut_def spliceIn_def Let_def moved_not_null)

text \<open>
  C2 as stated, for every document, fails on the document of \<open>drags_break_invariant\<close> when
  the stream still delivers the day as it had closed (Zoo, Balboa Park, Old Town, Pier, Cafe).
  The first merge finds five entries in day 0 and appends nothing, then its safety pass removes
  the duplicate zoo; the second merge finds four entries and appends Cafe.
\<close>

theorem mergePlanProgress_not_idempotent:
  "mergePlanProgress [[itVisitZoo, itZoo, itPark, itTown, itPier], [itCafe]]
                     [[itZoo, itPark, itTown, itPier, itCafe]]
     = Inr [[itVisitZoo, itPark, itTown, itPier], [itCafe]] \<and>
   mergePlanProgress [[itVisitZoo, itPark, itTown, itPier], [itCafe]]
                     [[itZoo, itPark, itTown, itPier, itCafe]]
     = Inr [[itVisitZoo, itPark, itTown, itPier, itCafe], [itCafe]] \<and>
   [[itVisitZoo, itPark, itTown, itPier], [itCafe]]
     \<noteq> [[itVisitZoo, itPark, itTown, itPier, itCafe], [itCafe]]"
  by (simp add: mergeDay_def dedupeWithinDay_def strict_has_title)

text \<open>
  C3. Merging any candidate into a document that satisfies the within-day invariant succeeds
  and yields a document that satisfies it again (strict items, pairwise distinct normalized
  title keys and at most five items in every day); the output of \<^verbatim>\<open>sanitizePlanDays\<close>
  satisfies it for every input.
\<close>

theorem dedup_cap_invariant:
  assumes "planOk prev"
  shows "(\<exists>m. mergePlanProgress prev incoming = Inr m \<and> planOk m) \<and> planOk (sanitizePlanDays final)"
  using mergePlanProgress_ok [OF assms] dedupeWithinDay_ok
  by (simp add: sanitizePlanDays_def planOk_def list_all_iff)

theorem dedup_cap_invariant_witness:
  "planOk [[itZoo, itPark]] \<and>
   mergePlanProgress [[itZoo, itPark]] [[itVisitZoo, itTown], [itPier]]
     = Inr [[itZoo, itPark, itTown], [itPier]] \<and>
   planOk [[itZoo, itPark, itTown], [itPier]] \<and>
   sanitizePlanDays [[itZoo, itVisitZoo, JNull]] = [[itZoo]] \<and>
   planOk [[itZoo]]"
proof -
  let ?prev = "[[itZoo, itPark]]"
  let ?inc = "[[itVisitZoo, itTown], [itPier]]"
  let ?final = "[[itZoo, itVisitZoo, JNull]]"
  have ok: "planOk ?prev"
    by (simp add: planOk_def dayOk_def)
  have merged: "mergePlanProgress ?prev ?inc = Inr [[itZoo, itPark, itTown], [itPier]]"
    by (simp add: mergeDay_def dedupeWithinDay_def strict_has_title)
  have "\<not> isStrictItem JNull"
    by (simp add: isStrictItem_def)
  then have sanitized: "sanitizePlanDays ?final = [[itZoo]]"
    by (simp add: sanitizePlanDays_def dedupeWithinDay_def)
  from dedup_cap_invariant [OF ok, of ?inc ?final]
  obtain m where "mergePlanProgress ?prev ?inc = Inr m" "planOk m" "planOk (sanitizePlanDays ?final)"
    by blast
  with merged sanitized have "planOk [[itZoo, itPark, itTown], [itPier]]" "planOk [[itZoo]]"
    by simp_all
  with ok merged sanitized show ?thesis by blast
qed

section \<open>Claims about drag and drop\<close>

lemma count_list_concat_update:
  "i < length xss \<Longrightarrow>
   count_list (concat (xss[i := ys])) x + count_list (xss ! i) x
     = count_list (concat xss) x + count_list ys x"
proof (induction xss arbitrary: i)
  case Nil
  then show ?case by simp
next
  case (Cons a xss)
  then show ?case by (cases i) auto
qed

text \<open>
  C5. Let day 0 have an entry at index 2 that is an item (not \<^verbatim>\<open>null\<close>) and let day 1 exist.
  Dropping the drag that started at (0, 2) on the slot (1, 0) keeps (1, 0) as final target and
  performs the cross-day move. In the result day 0 is the old day 0 without its entry at index
  2, so one shorter; day 1 is the moved item followed by the old day 1, so one longer; every
  other day is unchanged. JavaScript items are objects with an identity and the model has
  values, so that the moved item is in exactly one day is stated on occurrences: every value
  occurs in the document as often as before, and a moved value that occurred once in the
  document occurs afterwards in day 1 and in no other day.
\<close>

theorem cross_day_move_postcondition:
  assumes d1: "1 < length plan" and i2: "2 < length (plan ! 0)" and item: "plan ! 0 ! 2 \<noteq> JNull"
    and drag: "fromDay d = 0" "fromIndex d = 2"
    and r: "r = dropItem plan d (Some \<lparr>day = 1, index = 0\<rparr>)"
  shows "computeFinalTarget d (Some \<lparr>day = 1, index = 0\<rparr>) plan = \<lparr>day = 1, index = 0\<rparr> \<and>
         r = performCrossDayMove plan \<lparr>day = 0, index = 2\<rparr> \<lparr>day = 1, index = 0\<rparr> (data d) \<and>
         length r = length plan \<and>
         r ! 0 = take 2 (plan ! 0) @ drop 3 (plan ! 0) \<and>
         length (r ! 0) + 1 = length (plan ! 0) \<and>
         r ! 1 = (plan ! 0 ! 2) # (plan ! 1) \<and>
         length (r ! 1) = length (plan ! 1) + 1 \<and>
         (\<forall>k. 2 \<le> k \<and> k < length plan \<longrightarrow> r ! k = plan ! k) \<and>
         (\<forall>x. count_list (concat r) x = count_list (concat plan) x) \<and>
         (count_list (concat plan) (plan ! 0 ! 2) = 1 \<longrightarrow>
            (\<forall>k < length r. (plan ! 0 ! 2 \<in> set (r ! k)) = (k = 1)))"
proof -
  obtain d0 d1 rest where plan: "plan = d0 # d1 # rest"
    using d1 by (cases plan; cases "tl plan") auto
  define m where "m = d0 ! 2"
  define d0' where "d0' = take 2 d0 @ drop 3 d0"
  have len0: "2 < length d0" using i2 by (simp add: plan)
  have d0: "d0 = take 2 d0 @ m # drop 3 d0"
    using id_take_nth_drop [OF len0] by (simp add: m_def numeral_3_eq_3)
  have ft: "computeFinalTarget d (Some \<lparr>day = 1, index = 0\<rparr>) plan = \<lparr>day = 1, index = 0\<rparr>"
    by (simp add: computeFinalTarget_def plan nthOpt_def Let_def)
  have mv: "performCrossDayMove plan \<lparr>day = 0, index = 2\<rparr> \<lparr>day = 1, index = 0\<rparr> (data d)
             = d0' # (m # d1) # rest"
    using len0 item
    by (simp add: performCrossDayMove_def plan nthOpt_def Let_def spliceOut_def spliceIn_def
        numeral_3_eq_3 m_def d0'_def split: json.splits)
  have r': "r = d0' # (m # d1) # rest"
    by (simp add: r dropItem_def ft drag mv)
  have cnt: "count_list d0 x = count_list d0' x + (if x = m then 1 else 0)" for x
    by (subst d0) (simp add: d0'_def)
  have others: "r ! k = plan ! k" if "2 \<le> k" for k
  proof -
    have "k = Suc (Suc (k - 2))" using that by simp
    then obtain j where "k = Suc (Suc j)" ..
    then show ?thesis by (simp add: r' plan)
  qed
  have once: "(m \<in> set (r ! k)) = (k = 1)"
    if one: "count_list (concat plan) m = 1" and k: "k < length r" for k
  proof -
    have "count_list d0' m + count_list d1 m + count_list (concat rest) m = 0"
      using one cnt [of m] by (simp add: plan)
    then have no: "m \<notin> set d0'" "m \<notin> set d1" "m \<notin> set (concat rest)"
      by (simp_all add: count_list_0_iff)
    show ?thesis
    proof (cases k)
      case 0
      then show ?thesis using no by (simp add: r')
    next
      case (Suc j)
      show ?thesis
      proof (cases j)
        case 0
        then show ?thesis using Suc by (simp add: r')
      next
        case (Suc i)
        then have "rest ! i \<in> set rest" using k \<open>k = Suc j\<close> by (simp add: r')
        then have "m \<notin> set (rest ! i)" using no(3) by auto
        then show ?thesis using Suc \<open>k = Suc j\<close> by (simp add: r')
      qed
    qed
  qed
  have len: "length d0' + 1 = length d0"
    using len0 by (simp add: d0'_def)
  show ?thesis
    using ft mv others once len cnt
    by (simp add: r' plan m_def [symmetric] d0'_def [symmetric])
qed

theorem cross_day_move_postcondition_witness:
  "1 < length [[itZoo, itPark, itPier], [itTown], [itCafe]] \<and>
   2 < length ([[itZoo, itPark, itPier], [itTown], [itCafe]] ! 0) \<and>
   [[itZoo, itPark, itPier], [itTown], [itCafe]] ! 0 ! 2 \<noteq> JNull \<and>
   count_list (concat [[itZoo, itPark, itPier], [itTown], [itCafe]]) itPier = 1 \<and>
   dropItem [[itZoo, itPark, itPier], [itTown], [itCafe]]
      \<lparr>fromDay = 0, fromIndex = 2, data = itPier\<rparr> (Some \<lparr>day = 1, index = 0\<rparr>)
     = [[itZoo, itPark], [itPier, itTown], [itCafe]] \<and>
   itPier \<notin> set [itZoo, itPark] \<and> itPier \<in> set [itPier, itTown] \<and> itPier \<notin> set [itCafe]"
proof -
  let ?plan = "[[itZoo, itPark, itPier], [itTown], [itCafe]]"
  let ?d = "\<lparr>fromDay = 0, fromIndex = 2, data = itPier\<rparr>"
  let ?r = "dropItem ?plan ?d (Some \<lparr>day = 1, index = 0\<rparr>)"
  have h: "1 < length ?plan" "2 < length (?plan ! 0)" "?plan ! 0 ! 2 \<noteq> JNull"
    "fromDay ?d = 0" "fromIndex ?d = 2"
    by simp_all
  have once: "count_list (concat ?plan) itPier = 1"
    by simp
  note post = cross_day_move_postcondition [OF h refl]
  from post have "?r = performCrossDayMove ?plan \<lparr>day = 0, index = 2\<rparr> \<lparr>day = 1, index = 0\<rparr> (data ?d)"
    by blast
  then have r: "?r = [[itZoo, itPark], [itPier, itTown], [itCafe]]"
    by (simp add: performCrossDayMove_def nthOpt_def spliceOut_def spliceIn_def Let_def
        itPier_def mkItem_def)
  from post have "count_list (concat ?plan) (?plan ! 0 ! 2) = 1 \<longrightarrow>
      (\<forall>k < length ?r. (?plan ! 0 ! 2 \<in> set (?r ! k)) = (k = 1))"
    by blast
  with once have "\<forall>k < length ?r. (itPier \<in> set (?r ! k)) = (k = 1)"
    by simp
  then have "\<forall>k < 3. (itPier \<in> set ([[itZoo, itPark], [itPier, itTown], [itCafe]] ! k)) = (k = 1)"
    by (simp only: r) simp
  then have at: "k < 3 \<Longrightarrow>
      (itPier \<in> set ([[itZoo, itPark], [itPier, itTown], [itCafe]] ! k)) = (k = 1)" for k
    by blast
  have "itPier \<notin> set [itZoo, itPark]" "itPier \<in> set [itPier, itTown]" "itPier \<notin> set [itCafe]"
    using at [of 0] at [of 1] at [of 2] by simp_all
  with h(1,2,3) once r show ?thesis by blast
qed

text \<open>
  C10. When the recorded source of a drag is stale at drop time (the source day does not exist,
  or the source index is negative or not below the current length of that day), both
  \<^verbatim>\<open>performReorder\<close> and \<^verbatim>\<open>performCrossDayMove\<close> return the document they were given.
\<close>

theorem stale_drop_is_noop:
  assumes "d < 0 \<or> int (length prev) \<le> d \<or> fromIdx < 0 \<or> int (length (prev ! nat d)) \<le> fromIdx"
  shows "performReorder prev d fromIdx toIdx = prev \<and>
         performCrossDayMove prev \<lparr>day = d, index = fromIdx\<rparr> target snapshot = prev"
  using assms
  by (auto simp: performReorder_def performCrossDayMove_def nthOpt_def split: option.splits)

theorem stale_drop_is_noop_witness:
  "int (length ([[itZoo, itPark], [itTown]] ! nat 0)) \<le> 2 \<and>
   performReorder [[itZoo, itPark], [itTown]] 0 2 0 = [[itZoo, itPark], [itTown]] \<and>
   performCrossDayMove [[itZoo, itPark], [itTown]] \<lparr>day = 0, index = 2\<rparr> \<lparr>day = 1, index = 0\<rparr> itPier
     = [[itZoo, itPark], [itTown]]"
proof -
  have stale: "int (length ([[itZoo, itPark], [itTown]] ! nat 0)) \<le> 2"
    by simp
  then have "(0::int) < 0 \<or> int (length [[itZoo, itPark], [itTown]]) \<le> 0 \<or> (2::int) < 0 \<or>
      int (length ([[itZoo, itPark], [itTown]] ! nat 0)) \<le> 2"
    by blast
  from stale_drop_is_noop [OF this, of 0 "\<lparr>day = 1, index = 0\<rparr>" itPier] stale
  show ?thesis by blast
qed

section \<open>Claim about the frame decoder\<close>


lemma splitFrames_nonempty [simp]: "splitFrames s \<noteq> []"
  by (induction s rule: splitFrames.induct) (auto split: list.splits elim: consHead.elims)

lemma consHead_nonempty [simp]: "consHead c fs \<noteq> []"
  by (cases fs) auto

lemma butlast_consHead: "fs \<noteq> [] \<Longrightarrow> butlast (consHead c fs) = (if tl fs = [] then [] else consHead c (butlast fs))"
  by (cases fs) (auto split: list.splits)

lemma splitFrames_single: "splitFrames s = [f] \<Longrightarrow> f = s"
proof (induction s arbitrary: f rule: splitFrames.induct)
  case 1 then show ?case by simp
next
  case (2 c) then show ?case by simp
next
  case (3 c d cs)
  show ?case
  proof (cases "c = 10 \<and> d = 10")
    case True
    with 3 show ?thesis by simp
  next
    case False
    obtain g gs where g: "splitFrames (d # cs) = g # gs"
      by (cases "splitFrames (d # cs)") auto
    with 3(3) False have "gs = []" "f = c # g" by auto
    with 3(2) [OF False] g show ?thesis by simp
  qed
qed

lemma splitFrames_append:
  "splitFrames (s @ t) = butlast (splitFrames s) @ splitFrames (last (splitFrames s) @ t)"
proof (induction s rule: splitFrames.induct)
  case 1 then show ?case by simp
next
  case (2 c) then show ?case by simp
next
  case (3 c d cs)
  show ?case
  proof (cases "c = 10 \<and> d = 10")
    case True
    with 3 show ?thesis by simp
  next
    case False
    obtain g gs where g: "splitFrames (d # cs) = g # gs"
      by (cases "splitFrames (d # cs)") auto
    have ih: "splitFrames ((d # cs) @ t) = butlast (g # gs) @ splitFrames (last (g # gs) @ t)"
      using 3(2) [OF False] g by simp
    have unf: "splitFrames (c # d # r) = consHead c (splitFrames (d # r))" for r
      using False by auto
    show ?thesis
    proof (cases gs)
      case Nil
      then have "g = d # cs" using g splitFrames_single by blast
      with g Nil show ?thesis by (simp add: unf del: splitFrames.simps)
    next
      case (Cons h hs)
      with g ih show ?thesis by (simp add: unf del: splitFrames.simps)
    qed
  qed
qed

lemma splitFrames_last_residual:
  "splitFrames (last (splitFrames s)) = [last (splitFrames s)]"
proof (induction s rule: splitFrames.induct)
  case 1 then show ?case by simp
next
  case (2 c) then show ?case by simp
next
  case (3 c d cs)
  show ?case
  proof (cases "c = 10 \<and> d = 10")
    case True
    with 3 show ?thesis by simp
  next
    case False
    obtain g gs where g: "splitFrames (d # cs) = g # gs"
      by (cases "splitFrames (d # cs)") auto
    have unf: "splitFrames (c # d # r) = consHead c (splitFrames (d # r))" for r
      using False by auto
    show ?thesis
    proof (cases gs)
      case Nil
      then have "g = d # cs" using g splitFrames_single by blast
      with g Nil show ?thesis by (simp add: unf del: splitFrames.simps)
    next
      case (Cons h hs)
      with g 3(2) [OF False] show ?thesis by (simp add: unf del: splitFrames.simps)
    qed
  qed
qed

lemma feed_append:
  "feed buffer (c @ t) =
     (fst (feed (fst (feed buffer c)) t), snd (feed buffer c) @ snd (feed (fst (feed buffer c)) t))"
proof -
  have "splitFrames (buffer @ c @ t)
      = butlast (splitFrames (buffer @ c)) @ splitFrames (last (splitFrames (buffer @ c)) @ t)"
    using splitFrames_append [of "buffer @ c" t] by simp
  then show ?thesis
    by (simp add: feed_def Let_def butlast_append)
qed

lemma feed_residual: "splitFrames (fst (feed buffer c)) = [fst (feed buffer c)]"
  by (simp add: feed_def Let_def splitFrames_last_residual)

lemma feedAll_concat:
  "splitFrames buffer = [buffer] \<Longrightarrow> feedAll buffer chunks = feed buffer (concat chunks)"
proof (induction chunks arbitrary: buffer)
  case Nil
  then show ?case by (simp add: feed_def)
next
  case (Cons c cs)
  have "feedAll (fst (feed buffer c)) cs = feed (fst (feed buffer c)) (concat cs)"
    by (rule Cons.IH) (rule feed_residual)
  then show ?case
    by (cases "feed buffer c") (simp add: feed_append split: prod.splits)
qed

text \<open>
  C4. Feeding the decoder a text in any number of chunks, cut at any places, leaves the same
  residual buffer and makes the same calls of \<^verbatim>\<open>onEvent\<close>, in the same order, as feeding the
  whole text as one chunk to a fresh decoder.
\<close>

theorem frame_decoder_chunking:
  "feedAll [] chunks = feed [] (concat chunks)"
  by (rule feedAll_concat) simp


section \<open>Claim about the extractor\<close>


subsection \<open>The first match of the key is stable under extension\<close>

lemma length_planDaysKey [simp]: "length planDaysKey = 10"
  by (simp add: planDaysKey_def js_def)

lemma bracket_not_in_key: "91 \<notin> set planDaysKey"
  by (simp add: planDaysKey_def js_def)

lemma not_space_colon_bracket [simp]: "\<not> isSpace 58" "\<not> isSpace 91"
  by (simp_all add: isSpace_def)

lemma matchPlanDaysHere_iff:
  "matchPlanDaysHere s = Some n \<longleftrightarrow>
     (\<exists>sp1 sp2 rest. s = planDaysKey @ sp1 @ 58 # sp2 @ 91 # rest \<and>
        (\<forall>c \<in> set sp1. isSpace c) \<and> (\<forall>c \<in> set sp2. isSpace c) \<and>
        n = 12 + length sp1 + length sp2)"
proof
  assume m: "matchPlanDaysHere s = Some n"
  then have pre: "prefix planDaysKey s"
    by (simp add: matchPlanDaysHere_def split: if_splits)
  then obtain u where s: "s = planDaysKey @ u" by (auto simp: prefix_def)
  from m pre s obtain r1 where r1: "dropWhile isSpace u = 58 # r1"
    by (auto simp: matchPlanDaysHere_def split: list.splits if_splits)
  from m pre s r1 obtain r2 where r2: "dropWhile isSpace r1 = 91 # r2" and n: "n = length s - length r2"
    by (auto simp: matchPlanDaysHere_def split: list.splits if_splits)
  have u: "u = takeWhile isSpace u @ 58 # r1"
    using takeWhile_dropWhile_id [of isSpace u] r1 by simp
  have r: "r1 = takeWhile isSpace r1 @ 91 # r2"
    using takeWhile_dropWhile_id [of isSpace r1] r2 by simp
  have "s = planDaysKey @ takeWhile isSpace u @ 58 # takeWhile isSpace r1 @ 91 # r2"
    using s u r by metis
  moreover have "\<forall>c \<in> set (takeWhile isSpace u). isSpace c" "\<forall>c \<in> set (takeWhile isSpace r1). isSpace c"
    by (auto dest: set_takeWhileD)
  moreover have "n = 12 + length (takeWhile isSpace u) + length (takeWhile isSpace r1)"
  proof -
    have "length s = 10 + length (takeWhile isSpace u) + 1 + length (takeWhile isSpace r1) + 1 + length r2"
      by (subst calculation(1)) simp
    then show ?thesis using n by simp
  qed
  ultimately show "\<exists>sp1 sp2 rest. s = planDaysKey @ sp1 @ 58 # sp2 @ 91 # rest \<and>
        (\<forall>c \<in> set sp1. isSpace c) \<and> (\<forall>c \<in> set sp2. isSpace c) \<and>
        n = 12 + length sp1 + length sp2" by blast
next
  assume "\<exists>sp1 sp2 rest. s = planDaysKey @ sp1 @ 58 # sp2 @ 91 # rest \<and>
        (\<forall>c \<in> set sp1. isSpace c) \<and> (\<forall>c \<in> set sp2. isSpace c) \<and>
        n = 12 + length sp1 + length sp2"
  then obtain sp1 sp2 rest where s: "s = planDaysKey @ sp1 @ 58 # sp2 @ 91 # rest"
    and sp: "\<forall>c \<in> set sp1. isSpace c" "\<forall>c \<in> set sp2. isSpace c"
    and n: "n = 12 + length sp1 + length sp2" by blast
  have 1: "dropWhile isSpace (sp1 @ 58 # sp2 @ 91 # rest) = 58 # sp2 @ 91 # rest"
    using sp(1) by (simp add: dropWhile_append2)
  have 2: "dropWhile isSpace (sp2 @ 91 # rest) = 91 # rest"
    using sp(2) by (simp add: dropWhile_append2)
  show "matchPlanDaysHere s = Some n"
    by (simp add: matchPlanDaysHere_def s 1 2 n)
qed

lemma matchPlanDaysHere_extend:
  "matchPlanDaysHere s = Some n \<Longrightarrow> matchPlanDaysHere (s @ t) = Some n"
  unfolding matchPlanDaysHere_iff by (metis append.assoc append_Cons)

lemma matchPlanDaysHere_bracket:
  "matchPlanDaysHere s = Some n \<Longrightarrow> 91 \<in> set s"
  unfolding matchPlanDaysHere_iff by auto

lemma matchPlanDaysHere_restrict:
  assumes m: "matchPlanDaysHere (s @ t) = Some n" and b: "91 \<in> set s"
  shows "matchPlanDaysHere s = Some n"
proof -
  from m obtain sp1 sp2 rest where st: "s @ t = planDaysKey @ sp1 @ 58 # sp2 @ 91 # rest"
    and sp: "\<forall>c \<in> set sp1. isSpace c" "\<forall>c \<in> set sp2. isSpace c"
    and n: "n = 12 + length sp1 + length sp2"
    unfolding matchPlanDaysHere_iff by blast
  define pre where "pre = planDaysKey @ sp1 @ 58 # sp2"
  have st': "s @ t = pre @ 91 # rest" by (simp add: st pre_def)
  have nob: "91 \<notin> set pre"
    using sp bracket_not_in_key by (auto simp: pre_def)
  have "length pre < length s"
  proof (rule ccontr)
    assume "\<not> length pre < length s"
    then have "length s \<le> length pre" by simp
    then have "s = take (length s) pre"
      using st' by (metis append_eq_conv_conj take_append diff_is_0_eq take_0 append_Nil2 take_all_iff le_refl)
    then have "set s \<subseteq> set pre" by (metis set_take_subset)
    with b nob show False by auto
  qed
  then have "take (Suc (length pre)) (s @ t) = take (Suc (length pre)) s" by simp
  moreover have "take (Suc (length pre)) (pre @ 91 # rest) = pre @ [91]" by simp
  ultimately have "take (Suc (length pre)) s = pre @ [91]" using st' by simp
  then have "s = (pre @ [91]) @ drop (Suc (length pre)) s"
    by (metis append_take_drop_id)
  then have "s = planDaysKey @ sp1 @ 58 # sp2 @ 91 # drop (Suc (length pre)) s"
    by (simp add: pre_def)
  with sp n show ?thesis unfolding matchPlanDaysHere_iff by blast
qed

lemma findPlanDays_bracket: "findPlanDays s = Some i \<Longrightarrow> 91 \<in> set s"
proof (induction s arbitrary: i)
  case Nil
  then show ?case by simp
next
  case (Cons c cs)
  then show ?case
    by (cases "matchPlanDaysHere (c # cs)") (auto dest: matchPlanDaysHere_bracket)
qed

lemma findPlanDays_extend: "findPlanDays s = Some i \<Longrightarrow> findPlanDays (s @ t) = Some i"
proof (induction s arbitrary: i)
  case Nil
  then show ?case by simp
next
  case (Cons c cs)
  show ?case
  proof (cases "matchPlanDaysHere (c # cs)")
    case (Some n)
    with Cons.prems matchPlanDaysHere_extend [OF Some, of t] show ?thesis by simp
  next
    case None
    with Cons.prems obtain k where k: "findPlanDays cs = Some k" "i = Suc k" by auto
    then have "91 \<in> set (c # cs)" using findPlanDays_bracket by auto
    then have "matchPlanDaysHere ((c # cs) @ t) = None"
      using matchPlanDaysHere_restrict [of "c # cs" t] None by (cases "matchPlanDaysHere ((c # cs) @ t)") auto
    with Cons.IH [OF k(1)] k show ?thesis by simp
  qed
qed

subsection \<open>The scan of a prefix\<close>

lemma slice_append: "b \<le> length s \<Longrightarrow> slice (s @ t) a b = slice s a b"
  by (simp add: slice_def)

lemma scanStep_append:
  assumes "pos st < length s"
  shows "scanStep parse (s @ t) st = scanStep parse s st"
proof -
  have sl: "slice (s @ t) (nat (objStart st)) (pos st + 1) = slice s (nat (objStart st)) (pos st + 1)"
    using assms by (simp add: slice_append)
  have ch: "(s @ t) ! pos st = s ! pos st"
    using assms by (simp add: nth_append)
  show ?thesis unfolding scanStep_def sl ch ..
qed

lemma scanLoop_stop:
  "\<not> (pos st < length s \<and> depthSquare st > 0) \<Longrightarrow> scanLoop parse s st = st"
  by (subst scanLoop.simps) (rule if_not_P)

lemma scanLoop_step:
  "pos st < length s \<and> depthSquare st > 0 \<Longrightarrow>
   scanLoop parse s st = scanLoop parse s ((scanStep parse s st)\<lparr>pos := pos st + 1\<rparr>)"
  by (subst scanLoop.simps) (rule if_P)

lemma scanLoop_append:
  "scanLoop parse (s @ t) st = scanLoop parse (s @ t) (scanLoop parse s st)"
proof (induction parse s st rule: scanLoop.induct)
  case (1 parse s st)
  show ?case
  proof (cases "pos st < length s \<and> depthSquare st > 0")
    case True
    then have "scanLoop parse (s @ t) st
        = scanLoop parse (s @ t) ((scanStep parse s st)\<lparr>pos := pos st + 1\<rparr>)"
    proof -
      have "pos st < length (s @ t) \<and> depthSquare st > 0" using True by simp
      from scanLoop_step [OF this] True show ?thesis by (simp add: scanStep_append)
    qed
    also have "\<dots> = scanLoop parse (s @ t) (scanLoop parse s ((scanStep parse s st)\<lparr>pos := pos st + 1\<rparr>))"
      using 1 True by simp
    also have "scanLoop parse s ((scanStep parse s st)\<lparr>pos := pos st + 1\<rparr>) = scanLoop parse s st"
      using scanLoop_step [OF True] by simp
    finally show ?thesis .
  next
    case False
    then have "scanLoop parse s st = st" by (rule scanLoop_stop)
    then show ?thesis by simp
  qed
qed

lemma scanStep_days: "prefix (days st) (days (scanStep parse s st))"
  by (simp add: scanStep_def Let_def split: option.splits)

lemma scanLoop_days: "prefix (days st) (days (scanLoop parse s st))"
proof (induction parse s st rule: scanLoop.induct)
  case (1 parse s st)
  show ?case
  proof (cases "pos st < length s \<and> depthSquare st > 0")
    case True
    have "prefix (days st) (days ((scanStep parse s st)\<lparr>pos := pos st + 1\<rparr>))"
      using scanStep_days [of st parse s] by simp
    also have "prefix \<dots> (days (scanLoop parse s ((scanStep parse s st)\<lparr>pos := pos st + 1\<rparr>)))"
      using 1 True by simp
    finally show ?thesis using scanLoop_step [OF True] by simp
  next
    case False
    then show ?thesis by (simp add: scanLoop_stop)
  qed
qed

text \<open>
  C1. The extraction from a buffer is an initial segment of the extraction from any buffer
  that extends it: every day returned for \<open>b1\<close> is returned for \<open>b1 @ b2\<close> at the same
  position with the same items, so nothing returned is lost, changed or returned twice. This
  holds whatever \<^verbatim>\<open>JSON.parse\<close> returns on the slices.
\<close>

theorem extraction_monotone:
  "prefix (extractCompletedActivities parse b1) (extractCompletedActivities parse (b1 @ b2))"
proof (cases "findPlanDays b1")
  case None
  then show ?thesis by (simp add: extractCompletedActivities_def)
next
  case (Some i)
  let ?st0 = "\<lparr>pos = i, inString = False, escape = False, depthSquare = 1, depthCurly = 0,
               currentDay = None, days = [], objStart = - 1\<rparr>"
  have "prefix (days (scanLoop parse b1 ?st0)) (days (scanLoop parse (b1 @ b2) (scanLoop parse b1 ?st0)))"
    by (rule scanLoop_days)
  then have "prefix (days (scanLoop parse b1 ?st0)) (days (scanLoop parse (b1 @ b2) ?st0))"
    using scanLoop_append [of parse b1 b2 ?st0] by simp
  then show ?thesis
    using Some findPlanDays_extend [OF Some, of b2]
    by (simp add: extractCompletedActivities_def Let_def map_mono_prefix filter_mono_prefix)
qed


section \<open>Claims about the cost normalizer\<close>


lemmas cost_eval = coerceCost_def toLowerCase_def lowerUnit_def trim_def isSpace_def js_def
  literalAt_def wordBoundary_def isWordChar_def isDigit_def dashToHyphen_def parseInt_def
  toInt32_def dollars_def dollarRange_def Let_def showNat.simps


text \<open>
  C7. The four examples: \<^verbatim>\<open>"$10"\<close> is kept, \<^verbatim>\<open>"$25 to $40"\<close> becomes the range with an en dash
  (code unit 8211), \<^verbatim>\<open>"Free entry"\<close> becomes \<^verbatim>\<open>"free"\<close>, and the empty string gives
  \<^verbatim>\<open>undefined\<close>.
\<close>

theorem coerceCost_examples:
  "coerceCost (Some (js ''$10'')) = Some (js ''$10'') \<and>
   coerceCost (Some (js ''$25 to $40'')) = Some (js ''$25'' @ [8211] @ js ''$40'') \<and>
   coerceCost (Some (js ''Free entry'')) = Some (js ''free'') \<and>
   coerceCost (Some (js '''')) = None"
  by (simp add: cost_eval)

theorem coerceCost_examples_witness:
  "coerceCost (Some (js ''$25 to $40'')) = Some [36, 50, 53, 8211, 36, 52, 48] \<and>
   coerceCost (Some (js ''Free entry'')) = Some [102, 114, 101, 101]"
  using coerceCost_examples by (simp add: js_def)

subsection \<open>Strings of dollar signs\<close>

lemma dollars_trim: "\<forall>c \<in> set s. c = 36 \<Longrightarrow> trim s = s"
proof -
  assume a: "\<forall>c \<in> set s. c = 36"
  have "\<not> isSpace 36" by (simp add: isSpace_def)
  then have h: "dropWhile isSpace t = t" if "\<forall>c \<in> set t. c = 36" for t
    using that by (cases t) auto
  show ?thesis using a by (simp add: trim_def h)
qed

lemma dollars_lower: "\<forall>c \<in> set s. c = 36 \<Longrightarrow> toLowerCase s = s"
  by (induction s) (auto simp: toLowerCase_def lowerUnit_def)

lemma dollars_no_free:
  "\<forall>c \<in> set s. c = 36 \<Longrightarrow> \<not> testLiteral lb (js ''free'') rb p s"
  by (induction s arbitrary: p) (auto simp: literalAt_def js_def)

lemma dollars_no_zero:
  "\<forall>c \<in> set s. c = 36 \<Longrightarrow> \<not> testLiteral lb (js ''$0'') rb p s"
proof (induction s arbitrary: p)
  case Nil
  then show ?case by simp
next
  case (Cons c cs)
  then have "\<not> prefix (js ''$0'') (c # cs)"
    by (cases cs) (auto simp: js_def)
  with Cons show ?case by (simp add: literalAt_def)
qed

lemma dollars_dash: "\<forall>c \<in> set s. c = 36 \<Longrightarrow> map dashToHyphen s = s"
  by (induction s) (auto simp: dashToHyphen_def)

lemma dollars_to: "\<forall>c \<in> set s. c = 36 \<Longrightarrow> replaceTo p s = s"
  by (induction p s rule: replaceTo.induct) (auto simp: literalAt_def js_def)

lemma dollars_tilde: "\<forall>c \<in> set s. c = 36 \<Longrightarrow> replaceTildeSpaces s = s"
  by (induction s rule: replaceTildeSpaces.induct) (auto simp: isSpace_def)

lemma dollars_digits: "\<forall>c \<in> set s. c = 36 \<Longrightarrow> digitRuns [] s = []"
  by (induction s) (auto simp: isDigit_def)

lemma coerceCost_dollars:
  assumes "\<forall>c \<in> set s. c = 36" and "4 \<le> length s"
  shows "coerceCost (Some s) = Some (dollarRange 50 100)"
proof -
  have ne: "s \<noteq> []" "s \<noteq> js ''$$''" "s \<noteq> js ''$$$''"
    using assms(2) by (auto simp: js_def)
  show ?thesis
    using assms ne
    by (simp add: coerceCost_def dollars_trim dollars_lower dollars_no_free dollars_no_zero
        dollars_dash dollars_to dollars_tilde dollars_digits)
qed

text \<open>
  C8 as stated fails for the first of its inputs: a single dollar sign is matched by none of the
  three tier patterns and gives \<^verbatim>\<open>undefined\<close>.
\<close>

theorem single_dollar_is_no_tier:
  "coerceCost (Some (js ''$'')) = None"
  by (simp add: cost_eval)

text \<open>
  C8, amended. Two dollar signs give \<^verbatim>\<open>$10\<close>--\<^verbatim>\<open>$25\<close>, three give \<^verbatim>\<open>$25\<close>--\<^verbatim>\<open>$50\<close>, and every run
  of four or more gives \<^verbatim>\<open>$50\<close>--\<^verbatim>\<open>$100\<close> (each with an en dash); a single dollar sign is not a
  tier and gives \<^verbatim>\<open>undefined\<close>.
\<close>

theorem price_tiers:
  "coerceCost (Some (js ''$$'')) = Some (js ''$10'' @ [8211] @ js ''$25'') \<and>
   coerceCost (Some (js ''$$$'')) = Some (js ''$25'' @ [8211] @ js ''$50'') \<and>
   (\<forall>n \<ge> 4. coerceCost (Some (replicate n 36)) = Some (js ''$50'' @ [8211] @ js ''$100'')) \<and>
   coerceCost (Some (js ''$'')) = None"
proof -
  have "coerceCost (Some (replicate n 36)) = Some (js ''$50'' @ [8211] @ js ''$100'')" if "4 \<le> n" for n
    using coerceCost_dollars [of "replicate n 36"] that
    by (simp add: dollarRange_def dollars_def js_def showNat.simps)
  moreover have "coerceCost (Some (js ''$$'')) = Some (js ''$10'' @ [8211] @ js ''$25'')"
    by (simp add: cost_eval)
  moreover have "coerceCost (Some (js ''$$$'')) = Some (js ''$25'' @ [8211] @ js ''$50'')"
    by (simp add: cost_eval)
  moreover have "coerceCost (Some (js ''$'')) = None"
    by (simp add: cost_eval)
  ultimately show ?thesis by blast
qed

theorem price_tiers_witness:
  "(4::nat) \<le> 5 \<and> coerceCost (Some (js ''$$$$$'')) = Some (js ''$50'' @ [8211] @ js ''$100'')"
proof -
  have r: "replicate 5 36 = js ''$$$$$''"
    by (simp add: js_def numeral_eq_Suc)
  have "\<forall>n \<ge> 4. coerceCost (Some (replicate n 36)) = Some (js ''$50'' @ [8211] @ js ''$100'')"
    using price_tiers by blast
  then have "coerceCost (Some (replicate 5 36)) = Some (js ''$50'' @ [8211] @ js ''$100'')"
    by simp
  then show ?thesis by (simp add: r)
qed

lemma txt_neq [simp]:
  "txtPier \<noteq> txtCafe" "txtCafe \<noteq> txtPier" "txtPier \<noteq> txtFinal" "txtCafe \<noteq> txtFinal"
  "txtFinal \<noteq> txtPier" "txtFinal \<noteq> txtCafe"
  by (simp_all add: txtPier_def txtCafe_def txtFinal_def js_def)

lemma parseExample_simps [simp]:
  "parseExample txtPier = Some itPier" "parseExample txtCafe = Some itCafe"
  "parseExample txtFinal = Some docFinal"
  by (simp_all add: parseExample_def)

section \<open>Claim about the stream handler\<close>

subsection \<open>The example stream\<close>

lemma extraction_example:
  "extractCompletedActivities parseExample txtStream1 = [[itPier]]"
  "extractCompletedActivities parseExample (txtStream1 @ txtStream2) = [[itPier], [itCafe]]"
  by (simp_all add: extractCompletedActivities_def matchPlanDaysHere_def planDaysKey_def isSpace_def
      scanLoop.simps scanStep_def slice_def dedupeWithinDay_def txtStream1_def txtStream2_def
      parseExample_def txtPier_def txtCafe_def txtFinal_def js_def isStrictItem_def itPier_def
      itCafe_def mkItem_def title_def key_eval)

subsection \<open>The latch\<close>

lemma event_names [simp]:
  "js ''jsonFinal'' \<noteq> js ''jsonDelta''" "js ''jsonFinal'' \<noteq> js ''planImage''"
  "js ''jsonFinal'' \<noteq> js ''planImageError''"
  by (simp_all add: js_def)

lemma applyFinal_finalized:
  "finalized st \<or> parse dat \<noteq> None \<Longrightarrow> finalized (applyFinal parse exceeds st dat)"
  by (auto simp: applyFinal_def split: option.splits sum.splits)

lemma onEvent_keeps_latch:
  assumes "finalized st"
  shows "\<exists>st1. onEvent parse exceeds st e = Inr st1 \<and> finalized st1"
proof (cases e)
  case (Pair event dat)
  then show ?thesis
    using assms applyFinal_finalized [of st parse dat exceeds]
    by (simp add: onEvent_def)
qed

lemma runEvents_keeps_latch:
  "finalized st \<Longrightarrow> \<exists>st2. runEvents parse exceeds st es = Inr st2 \<and> finalized st2"
proof (induction es arbitrary: st)
  case Nil
  then show ?case by simp
next
  case (Cons e es)
  from onEvent_keeps_latch [OF Cons.prems, of parse exceeds e]
  obtain st1 where "onEvent parse exceeds st e = Inr st1" "finalized st1" by blast
  with Cons.IH [of st1] show ?case by simp
qed

lemma onEvent_delta_ignored:
  "finalized st \<Longrightarrow> onEvent parse exceeds st (js ''jsonDelta'', dat) = Inr st"
  by (simp add: onEvent_def)

subsection \<open>The reply text of the final payload\<close>

text \<open>A reply text of the declared type, a string, or none at all, never throws.\<close>

lemma finalizeText_declared:
  "typeof (getProp parsed (js ''replyText'')) = TString \<or> getProp parsed (js ''replyText'') = None \<Longrightarrow>
   \<exists>n. finalizeText exceeds parsed prevLen = Inr n"
proof (cases "getProp parsed (js ''replyText'')")
  case None
  then show ?thesis by (simp add: finalizeText_def)
next
  case (Some v)
  assume "typeof (getProp parsed (js ''replyText'')) = TString \<or> getProp parsed (js ''replyText'') = None"
  with Some have "typeof (Some v) = TString" by simp
  then obtain t where "v = JStr t" by (cases v) simp_all
  with Some show ?thesis by (simp add: finalizeText_def)
qed

text \<open>
  A reply text that is an object with a \<^verbatim>\<open>length\<close> above the length seen so far: the handler
  sets the latch, throws at \<^verbatim>\<open>finalText.slice\<close>, and leaves the plan and the seen length as they
  were, although the payload carries a plan.
\<close>

lemma final_with_object_reply_text:
  assumes "parse dat = Some docOddFinal" and "lastSeenReplyLen st < 5"
  shows "finalizeText exceeds docOddFinal (lastSeenReplyLen st) = Inl TypeError"
    and "onEvent parse exceeds st (js ''jsonFinal'', dat) = Inr (st\<lparr>finalized := True, jsonBuffer := []\<rparr>)"
proof -
  have r: "getProp docOddFinal (js ''replyText'') = Some (JObj [(js ''length'', JNum 5)])"
    by (simp add: docOddFinal_def js_def)
  show t: "finalizeText exceeds docOddFinal (lastSeenReplyLen st) = Inl TypeError"
    using assms(2) by (simp add: finalizeText_def r lengthAbove_def)
  have "docOddFinal \<noteq> JNull" by (simp add: docOddFinal_def)
  then show "onEvent parse exceeds st (js ''jsonFinal'', dat) = Inr (st\<lparr>finalized := True, jsonBuffer := []\<rparr>)"
    using assms(1) t by (simp add: onEvent_def applyFinal_def)
qed

text \<open>
  C6. When a \<^verbatim>\<open>jsonFinal\<close> event whose payload parses is handled, the latch is set; and when the
  statements on the reply text run through, as they do for every reply text that is a string,
  a payload with an array of day arrays replaces the document by its sanitized plan. From then
  on, whatever events follow, the latch stays set and every \<^verbatim>\<open>jsonDelta\<close> event returns the
  state it was given, plan document included. Submitting a new request (a non-empty text while
  nothing is loading) clears the latch and empties the document.
\<close>

theorem finalize_latch:
  assumes "parse dat = Some parsed"
  shows "\<exists>st1. onEvent parse exceeds st (js ''jsonFinal'', dat) = Inr st1 \<and> finalized st1 \<and>
           (\<forall>n ds final. finalizeText exceeds parsed (lastSeenReplyLen st) = Inr n \<and>
                getProp parsed (js ''planDays'') = Some (JArr ds) \<and> daysEntries ds = Inr final
               \<longrightarrow> planDays st1 = sanitizePlanDays final) \<and>
           (\<forall>es. \<exists>st2. runEvents parse exceeds st1 es = Inr st2 \<and> finalized st2 \<and>
               (\<forall>delta. onEvent parse exceeds st2 (js ''jsonDelta'', delta) = Inr st2) \<and>
               (\<forall>text. text \<noteq> [] \<longrightarrow>
                   \<not> finalized (handleSubmit text False st2) \<and>
                   planDays (handleSubmit text False st2) = []))"
proof -
  define st1 where "st1 = applyFinal parse exceeds st dat"
  have ev: "onEvent parse exceeds st (js ''jsonFinal'', dat) = Inr st1"
    by (simp add: onEvent_def st1_def)
  have fin: "finalized st1"
    unfolding st1_def using assms by (intro applyFinal_finalized) simp
  have repl: "planDays st1 = sanitizePlanDays final"
    if "finalizeText exceeds parsed (lastSeenReplyLen st) = Inr n"
      "getProp parsed (js ''planDays'') = Some (JArr ds)" "daysEntries ds = Inr final" for n ds final
  proof -
    have "parsed \<noteq> JNull" using that(2) by auto
    then show ?thesis
      using assms that by (simp add: st1_def applyFinal_def finalPlanDays_def)
  qed
  have later: "\<exists>st2. runEvents parse exceeds st1 es = Inr st2 \<and> finalized st2 \<and>
               (\<forall>delta. onEvent parse exceeds st2 (js ''jsonDelta'', delta) = Inr st2) \<and>
               (\<forall>text. text \<noteq> [] \<longrightarrow>
                   \<not> finalized (handleSubmit text False st2) \<and>
                   planDays (handleSubmit text False st2) = [])" for es
  proof -
    from runEvents_keeps_latch [OF fin, of parse exceeds es]
    obtain st2 where "runEvents parse exceeds st1 es = Inr st2" "finalized st2" by blast
    then show ?thesis
      by (auto simp: onEvent_delta_ignored handleSubmit_def)
  qed
  from ev fin repl later show ?thesis by blast
qed

text \<open>
  The theorem on the example stream: the document holds the Pier of the first delta and two
  code units of reply text have been shown when the final payload arrives with the plan of one
  Zoo.
\<close>

theorem finalize_latch_witness:
  "parseExample txtFinal = Some docFinal \<and>
   (\<exists>st1. onEvent parseExample (\<lambda>v n. False)
            \<lparr>planDays = [[itPier]], jsonBuffer = txtStream1, finalized = False, lastSeenReplyLen = 2\<rparr>
            (js ''jsonFinal'', txtFinal) = Inr st1 \<and>
          finalized st1 \<and> planDays st1 = [[itZoo]] \<and>
          onEvent parseExample (\<lambda>v n. False) st1 (js ''jsonDelta'', txtStream1) = Inr st1 \<and>
          js ''next'' \<noteq> [] \<and> \<not> finalized (handleSubmit (js ''next'') False st1) \<and>
          planDays (handleSubmit (js ''next'') False st1) = [])"
proof -
  let ?st = "\<lparr>planDays = [[itPier]], jsonBuffer = txtStream1, finalized = False, lastSeenReplyLen = 2\<rparr>"
  let ?g = "\<lambda>(v::json) (n::nat). False"
  have p: "parseExample txtFinal = Some docFinal" by simp
  have g: "finalizeText ?g docFinal (lastSeenReplyLen ?st) = Inr 2 \<and>
           getProp docFinal (js ''planDays'') = Some (JArr [JArr [itZoo]]) \<and>
           daysEntries [JArr [itZoo]] = Inr [[itZoo]]"
    by (simp add: finalizeText_def docFinal_def js_def)
  have s: "sanitizePlanDays [[itZoo]] = [[itZoo]]"
    by (simp add: sanitizePlanDays_def dedupeWithinDay_def)
  have ne: "js ''next'' \<noteq> []" by (simp add: js_def)
  from finalize_latch [where parse = parseExample and dat = txtFinal and parsed = docFinal
      and exceeds = ?g and st = ?st, OF p]
  obtain st1 where a: "onEvent parseExample ?g ?st (js ''jsonFinal'', txtFinal) = Inr st1"
    and b: "finalized st1"
    and c: "\<forall>n ds final. finalizeText ?g docFinal (lastSeenReplyLen ?st) = Inr n \<and>
                getProp docFinal (js ''planDays'') = Some (JArr ds) \<and> daysEntries ds = Inr final
               \<longrightarrow> planDays st1 = sanitizePlanDays final"
    and e: "\<forall>es. \<exists>st2. runEvents parseExample ?g st1 es = Inr st2 \<and> finalized st2 \<and>
               (\<forall>delta. onEvent parseExample ?g st2 (js ''jsonDelta'', delta) = Inr st2) \<and>
               (\<forall>text. text \<noteq> [] \<longrightarrow>
                   \<not> finalized (handleSubmit text False st2) \<and>
                   planDays (handleSubmit text False st2) = [])"
    by (elim exE conjE) (rule that; assumption)
  from c g have doc: "planDays st1 = sanitizePlanDays [[itZoo]]" by (elim allE impE) assumption+
  from e have "\<exists>st2. runEvents parseExample ?g st1 [] = Inr st2 \<and> finalized st2 \<and>
               (\<forall>delta. onEvent parseExample ?g st2 (js ''jsonDelta'', delta) = Inr st2) \<and>
               (\<forall>text. text \<noteq> [] \<longrightarrow>
                   \<not> finalized (handleSubmit text False st2) \<and>
                   planDays (handleSubmit text False st2) = [])" by (rule spec)
  then have f: "(\<forall>delta. onEvent parseExample ?g st1 (js ''jsonDelta'', delta) = Inr st1) \<and>
               (\<forall>text. text \<noteq> [] \<longrightarrow>
                   \<not> finalized (handleSubmit text False st1) \<and>
                   planDays (handleSubmit text False st1) = [])" by simp
  then have "onEvent parseExample ?g st1 (js ''jsonDelta'', txtStream1) = Inr st1"
    and "\<not> finalized (handleSubmit (js ''next'') False st1)"
    and "planDays (handleSubmit (js ''next'') False st1) = []"
    using ne by blast+
  with p a b doc s ne show ?thesis by (intro conjI exI [of _ st1]) simp_all
qed

section \<open>Claim about the server-side backfill\<close>

lemma titleKeyOf_suggestionItem:
  "titleKeyOf (Some (suggestionItem s)) = Inr (normalizeTitleKey (name s))"
  by (simp add: titleKeyOf_def suggestionItem_def title_def Let_def)

lemma pool_entries:
  assumes "c \<in> set (concat (suggestionsToStrictDays suggestions nights))"
  shows "(suggestions = [] \<and> c = None) \<or> (\<exists>s \<in> set suggestions. c = Some (suggestionItem s))"
proof -
  define items where "items = map suggestionItem suggestions"
  define denom where "denom = max 1 (length items)"
  define f where "f = (\<lambda>i. if i mod denom < length items then Some (items ! (i mod denom)) else None)"
  define dys where "dys = nat (max 1 (case nights of None \<Rightarrow> 1 | Some n \<Rightarrow> n))"
  define perDay where "perDay = min 5 (max 3 ((length items + dys - 1) div dys))"
  have "suggestionsToStrictDays suggestions nights
          = map (\<lambda>d. take perDay (drop (d * perDay) (map f [0..<dys * perDay]))) [0..<dys]"
    unfolding suggestionsToStrictDays_def Let_def items_def denom_def f_def dys_def perDay_def ..
  with assms obtain d where "c \<in> set (take perDay (drop (d * perDay) (map f [0..<dys * perDay])))"
    by auto
  then have "c \<in> set (map f [0..<dys * perDay])"
    by (meson in_set_dropD in_set_takeD)
  then obtain i where i: "c = f i"
    by auto
  show ?thesis
  proof (cases suggestions)
    case Nil
    then show ?thesis using i by (simp add: items_def f_def)
  next
    case (Cons a list)
    then have "denom = length items" "0 < length items"
      by (simp_all add: denom_def items_def)
    then have "i mod denom < length items"
      by simp
    then have "c = Some (items ! (i mod denom))" "items ! (i mod denom) \<in> set items"
      using i by (simp_all add: f_def)
    then show ?thesis by (auto simp: items_def)
  qed
qed

lemma titleKeyOf_valid: "validEntry e \<Longrightarrow> titleKeyOf e = Inr (entryKey e)"
  by (auto simp: validEntry_def entryKey_def)

lemma dedupeByTitleLoop_valid:
  "\<forall>e \<in> set xs. validEntry e \<Longrightarrow>
   \<exists>r. dedupeByTitleLoop xs seen out = Inr r \<and> set r \<subseteq> set out \<union> set xs"
proof (induction xs arbitrary: seen out)
  case Nil
  then show ?case by simp
next
  case (Cons x xs)
  then have k: "titleKeyOf x = Inr (entryKey x)" by (simp add: titleKeyOf_valid)
  from Cons obtain r1 where "dedupeByTitleLoop xs seen out = Inr r1" "set r1 \<subseteq> set out \<union> set xs"
    by (meson list.set_intros(2))
  moreover from Cons obtain r2 where
    "dedupeByTitleLoop xs (insert (entryKey x) seen) (out @ [x]) = Inr r2"
    "set r2 \<subseteq> set (out @ [x]) \<union> set xs"
    by (meson list.set_intros(2))
  ultimately show ?case using k by auto
qed

lemma titleKeys_valid:
  "\<forall>e \<in> set xs. validEntry e \<Longrightarrow> titleKeys xs = Inr (entryKey ` set xs)"
  by (induction xs) (simp_all add: titleKeyOf_valid)

lemma fillFromPool_spec:
  assumes "\<forall>c \<in> set pool. validEntry c"
    and "titles = entryKey ` set dayItems"
    and "distinct (map entryKey dayItems)"
    and "length dayItems < 3"
  shows "\<exists>filled. fillFromPool pool titles dayItems = Inr (filled, entryKey ` set filled) \<and>
           distinct (map entryKey filled) \<and> length filled \<le> 3 \<and>
           (\<exists>added. filled = dayItems @ added \<and> set added \<subseteq> set pool) \<and>
           (length filled < 3 \<longrightarrow> entryKey ` set pool \<subseteq> entryKey ` set filled)"
  using assms
proof (induction pool arbitrary: titles dayItems)
  case Nil
  then show ?case by simp
next
  case (Cons cand pool)
  have k: "titleKeyOf cand = Inr (entryKey cand)"
    using Cons.prems(1) by (simp add: titleKeyOf_valid)
  have valid: "\<forall>c \<in> set pool. validEntry c" using Cons.prems(1) by simp
  show ?case
  proof (cases "entryKey cand \<in> titles")
    case True
    from Cons.IH [OF valid Cons.prems(2,3,4)]
    obtain filled where f: "fillFromPool pool titles dayItems = Inr (filled, entryKey ` set filled)"
      "distinct (map entryKey filled)" "length filled \<le> 3"
      "\<exists>added. filled = dayItems @ added \<and> set added \<subseteq> set pool"
      "length filled < 3 \<longrightarrow> entryKey ` set pool \<subseteq> entryKey ` set filled"
      by blast
    from f(4) obtain added where a: "filled = dayItems @ added" "set added \<subseteq> set pool" by blast
    have "entryKey cand \<in> entryKey ` set filled"
      using True Cons.prems(2) a(1) by auto
    then have "length filled < 3 \<longrightarrow> entryKey ` set (cand # pool) \<subseteq> entryKey ` set filled"
      using f(5) by auto
    moreover have "\<exists>added. filled = dayItems @ added \<and> set added \<subseteq> set (cand # pool)"
      using a by auto
    ultimately show ?thesis using True k f(1,2,3) by simp
  next
    case False
    let ?day = "dayItems @ [cand]"
    have d: "distinct (map entryKey ?day)"
      using False Cons.prems(2,3) by auto
    have t: "insert (entryKey cand) titles = entryKey ` set ?day"
      using Cons.prems(2) by auto
    show ?thesis
    proof (cases "3 \<le> length ?day")
      case True
      then have "fillFromPool (cand # pool) titles dayItems = Inr (?day, entryKey ` set ?day)"
        using False k t by simp
      moreover have "length ?day \<le> 3" using Cons.prems(4) by simp
      moreover have "\<exists>added. ?day = dayItems @ added \<and> set added \<subseteq> set (cand # pool)"
        by auto
      ultimately show ?thesis using d True by (intro exI [of _ ?day]) simp
    next
      case short: False
      then have lt: "length ?day < 3" by simp
      from Cons.IH [OF valid t d lt]
      obtain filled where f: "fillFromPool pool (insert (entryKey cand) titles) ?day
            = Inr (filled, entryKey ` set filled)"
        "distinct (map entryKey filled)" "length filled \<le> 3"
        "\<exists>added. filled = ?day @ added \<and> set added \<subseteq> set pool"
        "length filled < 3 \<longrightarrow> entryKey ` set pool \<subseteq> entryKey ` set filled"
        by blast
      from f(4) obtain added where a: "filled = ?day @ added" "set added \<subseteq> set pool" by blast
      have "fillFromPool (cand # pool) titles dayItems = Inr (filled, entryKey ` set filled)"
        using False k short f(1) by simp
      moreover have "\<exists>added'. filled = dayItems @ added' \<and> set added' \<subseteq> set (cand # pool)"
        using a by (intro exI [of _ "cand # added"]) auto
      moreover have "length filled < 3 \<longrightarrow> entryKey ` set (cand # pool) \<subseteq> entryKey ` set filled"
        using f(5) a(1) by auto
      ultimately show ?thesis using f(2,3) by blast
    qed
  qed
qed

lemma fillFromPools_spec:
  assumes "\<forall>pool \<in> set pools. \<forall>c \<in> set pool. validEntry c"
    and "titles = entryKey ` set dayItems"
    and "distinct (map entryKey dayItems)"
    and "length dayItems < 3"
  shows "\<exists>filled. fillFromPools pools titles dayItems = Inr filled \<and>
           distinct (map entryKey filled) \<and> length filled \<le> 3 \<and>
           (\<exists>added. filled = dayItems @ added \<and> set added \<subseteq> set (concat pools)) \<and>
           (length filled < 3 \<longrightarrow> entryKey ` set (concat pools) \<subseteq> entryKey ` set filled)"
  using assms
proof (induction pools arbitrary: titles dayItems)
  case Nil
  then show ?case by simp
next
  case (Cons pool pools)
  have "\<forall>c \<in> set pool. validEntry c" using Cons.prems(1) by simp
  from fillFromPool_spec [OF this Cons.prems(2,3,4)]
  obtain f1 where f1: "fillFromPool pool titles dayItems = Inr (f1, entryKey ` set f1)"
    "distinct (map entryKey f1)" "length f1 \<le> 3"
    "\<exists>added. f1 = dayItems @ added \<and> set added \<subseteq> set pool"
    "length f1 < 3 \<longrightarrow> entryKey ` set pool \<subseteq> entryKey ` set f1"
    by blast
  from f1(4) obtain a1 where a1: "f1 = dayItems @ a1" "set a1 \<subseteq> set pool" by blast
  show ?case
  proof (cases "3 \<le> length f1")
    case True
    then have "fillFromPools (pool # pools) titles dayItems = Inr f1"
      using f1(1) by simp
    moreover have "\<exists>added. f1 = dayItems @ added \<and> set added \<subseteq> set (concat (pool # pools))"
      using a1 by auto
    ultimately show ?thesis using f1(2,3) True by auto
  next
    case False
    then have lt: "length f1 < 3" by simp
    have valid: "\<forall>p \<in> set pools. \<forall>c \<in> set p. validEntry c" using Cons.prems(1) by simp
    from Cons.IH [OF valid refl f1(2) lt]
    obtain f2 where f2: "fillFromPools pools (entryKey ` set f1) f1 = Inr f2"
      "distinct (map entryKey f2)" "length f2 \<le> 3"
      "\<exists>added. f2 = f1 @ added \<and> set added \<subseteq> set (concat pools)"
      "length f2 < 3 \<longrightarrow> entryKey ` set (concat pools) \<subseteq> entryKey ` set f2"
      by blast
    from f2(4) obtain a2 where a2: "f2 = f1 @ a2" "set a2 \<subseteq> set (concat pools)" by blast
    have "fillFromPools (pool # pools) titles dayItems = Inr f2"
      using f1(1) False f2(1) by simp
    moreover have "\<exists>added. f2 = dayItems @ added \<and> set added \<subseteq> set (concat (pool # pools))"
      using a1 a2 by (intro exI [of _ "a1 @ a2"]) auto
    moreover have "length f2 < 3 \<longrightarrow> entryKey ` set (concat (pool # pools)) \<subseteq> entryKey ` set f2"
    proof
      assume "length f2 < 3"
      then have 1: "entryKey ` set (concat pools) \<subseteq> entryKey ` set f2" using f2(5) by simp
      have "entryKey ` set pool \<subseteq> entryKey ` set f1" using f1(5) lt by simp
      also have "\<dots> \<subseteq> entryKey ` set f2" using a2(1) by auto
      finally have 2: "entryKey ` set pool \<subseteq> entryKey ` set f2" .
      have "set (concat (pool # pools)) = set pool \<union> set (concat pools)" by simp
      then show "entryKey ` set (concat (pool # pools)) \<subseteq> entryKey ` set f2"
        using 1 2 by (simp only: image_Un Un_subset_iff)
    qed
    ultimately show ?thesis using f2(2,3) by blast
  qed
qed


lemma fillFromPool_total:
  "\<forall>c \<in> set pool. validEntry c \<Longrightarrow> \<exists>res. fillFromPool pool titles dayItems = Inr res"
proof (induction pool arbitrary: titles dayItems)
  case Nil
  then show ?case by simp
next
  case (Cons cand pool)
  then have k: "titleKeyOf cand = Inr (entryKey cand)" by (simp add: titleKeyOf_valid)
  from Cons obtain r1 where "fillFromPool pool titles dayItems = Inr r1"
    by (meson list.set_intros(2))
  moreover from Cons obtain r2 where
    "fillFromPool pool (insert (entryKey cand) titles) (dayItems @ [cand]) = Inr r2"
    by (meson list.set_intros(2))
  ultimately show ?case using k by simp
qed

lemma fillFromPools_total:
  "\<forall>pool \<in> set pools. \<forall>c \<in> set pool. validEntry c \<Longrightarrow>
   \<exists>res. fillFromPools pools titles dayItems = Inr res"
proof (induction pools arbitrary: titles dayItems)
  case Nil
  then show ?case by simp
next
  case (Cons pool pools)
  then have "\<forall>c \<in> set pool. validEntry c" by simp
  from fillFromPool_total [OF this, of titles dayItems]
  obtain filled titles1 where f: "fillFromPool pool titles dayItems = Inr (filled, titles1)"
    by (metis surj_pair)
  from Cons obtain res where "fillFromPools pools titles1 filled = Inr res"
    by (meson list.set_intros(2))
  with f show ?case by simp
qed

lemma tryPools_valid:
  assumes "\<forall>c \<in> set (concat fallback). validEntry c"
  shows "\<forall>pool \<in> set ((if i < length fallback then [fallback ! i] else [])
                        @ (if length fallback > 0 then [concat fallback] else [])).
           \<forall>c \<in> set pool. validEntry c"
proof -
  have "set (fallback ! i) \<subseteq> set (concat fallback)" if "i < length fallback"
    using that by (auto intro: nth_mem)
  then show ?thesis using assms by auto
qed

lemma enforceDay_unfold:
  assumes d: "dedupeWithinDayByTitle rawDay = Inr r"
    and d5: "day5 = take 5 r"
    and t: "titleKeys day5 = Inr titles"
    and p: "pools = (if i < length fallback then [fallback ! i] else [])
                   @ (if length fallback > 0 then [concat fallback] else [])"
  shows "enforceDay fallback i rawDay =
           (if length day5 < 3
            then (case fillFromPools pools titles day5 of
                    Inl e \<Rightarrow> Inl e
                  | Inr filled \<Rightarrow> Inr (take 5 filled))
            else Inr (take 5 day5))"
proof -
  have t': "titleKeys (take 5 r) = Inr titles" using t d5 by simp
  show ?thesis
    unfolding enforceDay_def Let_def d sum.case t' p d5 ..
qed

lemma enforceDay_total:
  assumes "\<forall>e \<in> set rawDay. validEntry e" and "\<forall>c \<in> set (concat fallback). validEntry c"
  shows "\<exists>d. enforceDay fallback i rawDay = Inr d"
proof -
  define pools where "pools = (if i < length fallback then [fallback ! i] else [])
                   @ (if length fallback > 0 then [concat fallback] else [])"
  from dedupeByTitleLoop_valid [OF assms(1), of "{}" "[]"]
  obtain r where r: "dedupeWithinDayByTitle rawDay = Inr r" "set r \<subseteq> set rawDay"
    by (auto simp: dedupeWithinDayByTitle_def)
  define day5 where "day5 = take 5 r"
  have "\<forall>e \<in> set day5. validEntry e"
    unfolding day5_def using r(2) assms(1) by (meson in_set_takeD subsetD)
  then have t: "titleKeys day5 = Inr (entryKey ` set day5)"
    by (rule titleKeys_valid)
  have "\<forall>pool \<in> set pools. \<forall>c \<in> set pool. validEntry c"
    unfolding pools_def by (rule tryPools_valid [OF assms(2)])
  from fillFromPools_total [OF this]
  obtain res where "fillFromPools pools (entryKey ` set day5) day5 = Inr res"
    by blast
  then show ?thesis
    unfolding enforceDay_unfold [OF r(1) day5_def t pools_def] by simp
qed

lemma enforceLoop_total:
  assumes "\<forall>i \<in> set idxs. \<exists>d. enforceDay fallback i (if i < length plan then plan ! i else []) = Inr d"
  shows "\<exists>out. enforceLoop fallback plan idxs = Inr out \<and> length out = length idxs \<and>
           (\<forall>j < length idxs.
              enforceDay fallback (idxs ! j) (if idxs ! j < length plan then plan ! (idxs ! j) else [])
                = Inr (out ! j))"
  using assms
proof (induction idxs)
  case Nil
  then show ?case by simp
next
  case (Cons i idxs)
  then obtain d where d: "enforceDay fallback i (if i < length plan then plan ! i else []) = Inr d"
    by auto
  from Cons obtain out where out: "enforceLoop fallback plan idxs = Inr out" "length out = length idxs"
    "\<forall>j < length idxs.
        enforceDay fallback (idxs ! j) (if idxs ! j < length plan then plan ! (idxs ! j) else [])
          = Inr (out ! j)"
    by auto
  have "\<forall>j < length (i # idxs).
          enforceDay fallback ((i # idxs) ! j)
              (if (i # idxs) ! j < length plan then plan ! ((i # idxs) ! j) else [])
            = Inr ((d # out) ! j)"
  proof (intro allI impI)
    fix j assume "j < length (i # idxs)"
    then show "enforceDay fallback ((i # idxs) ! j)
              (if (i # idxs) ! j < length plan then plan ! ((i # idxs) ! j) else [])
            = Inr ((d # out) ! j)"
      using d out(3) by (cases j) auto
  qed
  with d out(1,2) show ?case by simp
qed

lemma enforceDay_single:
  assumes valid: "\<forall>c \<in> set (concat fallback). validEntry c"
    and kx: "titleKeyOf x = Inr k0"
    and pool: "{c1, c2, c3, c4} \<subseteq> set (concat fallback)"
    and keys: "titleKeyOf c1 = Inr k1" "titleKeyOf c2 = Inr k2" "titleKeyOf c3 = Inr k3"
      "titleKeyOf c4 = Inr k4"
    and dist: "distinct [k0, k1, k2, k3, k4]"
    and dd: "dedupeWithinDayByTitle rawDay = Inr [x]"
  shows "\<exists>fill. enforceDay fallback i rawDay = Inr (x # fill) \<and> length (x # fill) = 3 \<and>
           set fill \<subseteq> set (concat fallback) \<and> distinct (map entryKey (x # fill))"
proof -
  define pools where "pools = (if i < length fallback then [fallback ! i] else [])
                  @ (if length fallback > 0 then [concat fallback] else [])"
  have ex: "entryKey x = k0" using kx by (simp add: entryKey_def)
  have vx: "validEntry x" using kx by (auto simp: validEntry_def)
  have tk: "titleKeys [x] = Inr (entryKey ` set [x])"
    using titleKeys_valid [of "[x]"] vx by simp
  have d5: "[x] = take 5 [x]" by simp
  have ne: "fallback \<noteq> []" using pool by auto
  have sub: "set (concat pools) = set (concat fallback)"
  proof -
    have "set (fallback ! i) \<subseteq> set (concat fallback)" if "i < length fallback"
      using that by (auto intro: nth_mem)
    then show ?thesis using ne by (auto simp: pools_def)
  qed
  have pv: "\<forall>pool \<in> set pools. \<forall>c \<in> set pool. validEntry c"
    unfolding pools_def by (rule tryPools_valid [OF valid])
  from fillFromPools_spec [OF pv, of "entryKey ` set [x]" "[x]"]
  obtain filled where f: "fillFromPools pools (entryKey ` set [x]) [x] = Inr filled"
    "distinct (map entryKey filled)" "length filled \<le> 3"
    "\<exists>added. filled = [x] @ added \<and> set added \<subseteq> set (concat pools)"
    "length filled < 3 \<longrightarrow> entryKey ` set (concat pools) \<subseteq> entryKey ` set filled"
    by auto
  from f(4) obtain fill where fill: "filled = x # fill" "set fill \<subseteq> set (concat fallback)"
    using sub by auto
  have "\<not> length filled < 3"
  proof
    assume lt: "length filled < 3"
    then have "entryKey ` set (concat fallback) \<subseteq> entryKey ` set filled"
      using f(5) sub by simp
    moreover have "{k1, k2, k3, k4} \<subseteq> entryKey ` set (concat fallback)"
    proof -
      have "entryKey c1 = k1" "entryKey c2 = k2" "entryKey c3 = k3" "entryKey c4 = k4"
        using keys by (simp_all add: entryKey_def)
      then show ?thesis using pool by (metis image_eqI insert_subset empty_subsetI)
    qed
    ultimately have "{k1, k2, k3, k4} \<subseteq> entryKey ` set filled" by (rule order_trans [rotated])
    then have "card {k1, k2, k3, k4} \<le> card (entryKey ` set filled)"
      by (intro card_mono) simp_all
    also have "\<dots> \<le> card (set filled)" by (intro card_image_le) simp
    also have "\<dots> \<le> length filled" by (rule card_length)
    finally have "card {k1, k2, k3, k4} < 3" using lt by simp
    moreover have "card {k1, k2, k3, k4} = 4" using dist by simp
    ultimately show False by simp
  qed
  then have len: "length filled = 3" using f(3) by simp
  have "enforceDay fallback i rawDay = Inr (take 5 filled)"
    unfolding enforceDay_unfold [OF dd d5 tk pools_def] using f(1) by simp
  then have "enforceDay fallback i rawDay = Inr (x # fill)"
    using len fill(1) by simp
  with f(2) len fill show ?thesis by auto
qed

text \<open>
  C9. Let every entry of the plan have a title that can be read, let day \<open>i\<close> hold exactly
  one item \<open>x\<close> once its duplicates are removed, and let the fallback pool built from the
  suggestions contain four
  candidates whose normalized title keys are pairwise distinct and differ from the key of
  \<open>x\<close>. Then \<^verbatim>\<open>enforceDayCount3to5\<close> returns a plan of the same length whose day \<open>i\<close> is \<open>x\<close>
  followed by candidates of the pool, has at least three and at most five items, and has
  pairwise distinct normalized title keys, so that no filler shares a key with \<open>x\<close> or with
  another filler.
\<close>

theorem backfill_to_minimum:
  assumes typed: "\<forall>d \<in> set plan. \<forall>e \<in> set d. \<exists>k. titleKeyOf e = Inr k"
    and i: "i < length plan" and one: "dedupeWithinDayByTitle (plan ! i) = Inr [x]"
    and kx: "titleKeyOf x = Inr k0"
    and fb: "fallback = suggestionsToStrictDays suggestions
               (Some (case nights of None \<Rightarrow> int (max (length plan) 1) | Some n \<Rightarrow> n))"
    and pool: "{c1, c2, c3, c4} \<subseteq> set (concat fallback)"
    and keys: "titleKeyOf c1 = Inr k1" "titleKeyOf c2 = Inr k2" "titleKeyOf c3 = Inr k3"
      "titleKeyOf c4 = Inr k4"
    and dist: "distinct [k0, k1, k2, k3, k4]"
  shows "\<exists>out fill ks. enforceDayCount3to5 plan suggestions nights = Inr out \<and>
           length out = length plan \<and>
           out ! i = x # fill \<and> 3 \<le> length (out ! i) \<and> length (out ! i) \<le> 5 \<and>
           set fill \<subseteq> set (concat fallback) \<and>
           map titleKeyOf (x # fill) = map Inr (k0 # ks) \<and> distinct (k0 # ks)"
proof -
  have nonempty: "suggestions \<noteq> []"
  proof
    assume "suggestions = []"
    moreover have "c1 \<in> set (concat (suggestionsToStrictDays suggestions
               (Some (case nights of None \<Rightarrow> int (max (length plan) 1) | Some n \<Rightarrow> n))))"
      using pool fb by simp
    ultimately have "c1 = None" using pool_entries [of c1 suggestions] by auto
    then show False using keys(1) by (simp add: titleKeyOf_def)
  qed
  have valid: "\<forall>c \<in> set (concat fallback). validEntry c"
  proof
    fix c assume "c \<in> set (concat fallback)"
    then obtain s where "c = Some (suggestionItem s)"
      using pool_entries [of c suggestions] nonempty fb by auto
    then show "validEntry c" by (auto simp: validEntry_def titleKeyOf_suggestionItem)
  qed
  have days: "\<forall>j \<in> set [0..<length plan].
      \<exists>d. enforceDay fallback j (if j < length plan then plan ! j else []) = Inr d"
  proof
    fix j assume "j \<in> set [0..<length plan]"
    then have "plan ! j \<in> set plan" by simp
    then have "\<forall>e \<in> set (if j < length plan then plan ! j else []). validEntry e"
      using typed by (auto simp: validEntry_def)
    from enforceDay_total [OF this valid]
    show "\<exists>d. enforceDay fallback j (if j < length plan then plan ! j else []) = Inr d" .
  qed
  from enforceLoop_total [OF days]
  obtain out where out: "enforceLoop fallback plan [0..<length plan] = Inr out"
    "length out = length plan"
    "\<forall>j < length plan. enforceDay fallback ([0..<length plan] ! j)
        (if [0..<length plan] ! j < length plan then plan ! ([0..<length plan] ! j) else [])
       = Inr (out ! j)"
    by auto
  have mx: "max (length plan) 1 = length plan" using i by simp
  have fb': "suggestionsToStrictDays suggestions
               (Some (case nights of None \<Rightarrow> int (length plan) | Some n \<Rightarrow> n)) = fallback"
    unfolding fb mx ..
  have whole: "enforceDayCount3to5 plan suggestions nights = Inr out"
    unfolding enforceDayCount3to5_def Let_def mx fb' by (rule out(1))
  have "enforceDay fallback i (plan ! i) = Inr (out ! i)"
    using out(3) i by simp
  moreover from enforceDay_single [OF valid kx pool keys dist one, of i]
  obtain fill where fill: "enforceDay fallback i (plan ! i) = Inr (x # fill)" "length (x # fill) = 3"
    "set fill \<subseteq> set (concat fallback)" "distinct (map entryKey (x # fill))"
    by blast
  ultimately have oi: "out ! i = x # fill" by simp
  have "\<forall>c \<in> set fill. titleKeyOf c = Inr (entryKey c)"
    using fill(3) valid by (auto simp: titleKeyOf_valid)
  then have m: "map titleKeyOf (x # fill) = map Inr (k0 # map entryKey fill)"
    using kx by simp
  have "entryKey x = k0" using kx by (simp add: entryKey_def)
  then have "distinct (k0 # map entryKey fill)" using fill(4) by simp
  with whole out(2) oi fill(2,3) m show ?thesis
    by (intro exI [of _ out] exI [of _ fill] exI [of _ "map entryKey fill"]) simp
qed


lemma suggestionItem_mkSuggestion:
  "w \<noteq> [] \<Longrightarrow> suggestionItem (mkSuggestion n w) = mkItem n w"
  by (simp add: suggestionItem_def mkSuggestion_def mkItem_def coerceCost_def js_def)

lemma exFallback_eq: "suggestionsToStrictDays exSuggestions (Some 1) = exFallback"
  by (simp add: suggestionsToStrictDays_def exSuggestions_def exFallback_def Let_def
      suggestionItem_mkSuggestion itZoo_def itPark_def itTown_def itPier_def itCafe_def)

lemma example_entry_keys [simp]:
  "titleKeyOf (Some itZoo) = Inr (js ''zoo'')"
  "titleKeyOf (Some itPark) = Inr (js ''balboa park'')"
  "titleKeyOf (Some itTown) = Inr (js ''old town'')"
  "titleKeyOf (Some itPier) = Inr (js ''pier'')"
  "titleKeyOf (Some itCafe) = Inr (js ''cafe'')"
  "titleKeyOf (Some itVisitZoo) = Inr (js ''zoo'')"
  using strict_has_title [OF example_strict(1)] strict_has_title [OF example_strict(2)]
    strict_has_title [OF example_strict(3)]
    strict_has_title [OF example_strict(4)] strict_has_title [OF example_strict(5)]
    strict_has_title [OF example_strict(6)]
  by (simp_all add: titleKeyOf_def)

lemma backfill_example:
  "enforceDayCount3to5 [[Some itZoo, Some itVisitZoo]] exSuggestions (Some 1)
     = Inr [[Some itZoo, Some itPark, Some itTown]]"
  by (simp add: enforceDayCount3to5_def exFallback_eq Let_def)
     (simp add: exFallback_def enforceDay_def dedupeWithinDayByTitle_def Let_def)

theorem backfill_to_minimum_witness:
  "titleKeyOf (Some itZoo) = Inr (js ''zoo'') \<and> titleKeyOf (Some itVisitZoo) = Inr (js ''zoo'') \<and>
   (0::nat) < length [[Some itZoo, Some itVisitZoo]] \<and>
   dedupeWithinDayByTitle ([[Some itZoo, Some itVisitZoo]] ! 0) = Inr [Some itZoo] \<and>
   Some itPark \<in> set (concat exFallback) \<and> Some itTown \<in> set (concat exFallback) \<and>
   Some itPier \<in> set (concat exFallback) \<and> Some itCafe \<in> set (concat exFallback) \<and>
   distinct [js ''zoo'', js ''balboa park'', js ''old town'', js ''pier'', js ''cafe''] \<and>
   (\<exists>out fill ks.
      enforceDayCount3to5 [[Some itZoo, Some itVisitZoo]] exSuggestions (Some 1) = Inr out \<and>
      length out = length [[Some itZoo, Some itVisitZoo]] \<and>
      out ! 0 = Some itZoo # fill \<and> 3 \<le> length (out ! 0) \<and> length (out ! 0) \<le> 5 \<and>
      set fill \<subseteq> set (concat exFallback) \<and>
      map titleKeyOf (Some itZoo # fill) = map Inr (js ''zoo'' # ks) \<and> distinct (js ''zoo'' # ks))"
proof -
  let ?plan = "[[Some itZoo, Some itVisitZoo]]"
  have typed: "\<forall>d \<in> set ?plan. \<forall>e \<in> set d. \<exists>k. titleKeyOf e = Inr k"
    by simp
  have i: "(0::nat) < length ?plan"
    and one: "dedupeWithinDayByTitle (?plan ! 0) = Inr [Some itZoo]"
    by (simp_all add: dedupeWithinDayByTitle_def)
  have fb: "exFallback = suggestionsToStrictDays exSuggestions
      (Some (case Some 1 of None \<Rightarrow> int (max (length ?plan) 1) | Some n \<Rightarrow> n))"
    by (simp add: exFallback_eq)
  have pool: "{Some itPark, Some itTown, Some itPier, Some itCafe} \<subseteq> set (concat exFallback)"
    by (simp add: exFallback_def)
  have dist: "distinct [js ''zoo'', js ''balboa park'', js ''old town'', js ''pier'', js ''cafe'']"
    by simp
  from backfill_to_minimum [OF typed i one example_entry_keys(1) fb pool
      example_entry_keys(2) example_entry_keys(3) example_entry_keys(4) example_entry_keys(5) dist]
  moreover have "Some itPark \<in> set (concat exFallback)" "Some itTown \<in> set (concat exFallback)"
    "Some itPier \<in> set (concat exFallback)" "Some itCafe \<in> set (concat exFallback)"
    by (simp_all add: exFallback_def)
  ultimately show ?thesis using i one dist example_entry_keys(1) example_entry_keys(6) by blast
qed

end
